theory Spec2Isabelle
  imports Main
begin

section \<open>Time values\<close>

text \<open>
  A Go \<^verbatim>\<open>time.Time\<close> is an instant together with a location. The instant is kept as
  nanoseconds since the Unix epoch; a location is the offset in force before its first
  transition and the list of its transitions (instant in Unix seconds, offset in seconds east
  of UTC from that instant on), in ascending order, as in the zone tables of the Go runtime.
\<close>

record Location =
  offset0 :: int
  zoneTrans :: "(int \<times> int) list"

record Time =
  unixNano :: int
  loc :: Location

definition Before :: "Time \<Rightarrow> Time \<Rightarrow> bool" where
  "Before t u = (unixNano t < unixNano u)"

definition Add :: "Time \<Rightarrow> int \<Rightarrow> Time" where
  "Add t d = t\<lparr>unixNano := unixNano t + d\<rparr>"

definition Hour :: int where
  "Hour = 3600 * 1000000000"

section \<open>The data model (package model)\<close>

text \<open>
  Field names follow the Go structs; a prefix tells the records apart where Go reuses a name
  (\<open>r\<close> for Registration, \<open>p\<close> for RegistrationPhase, \<open>d\<close> for EventDetails, \<open>c\<close> for
  Calendar). \<open>tId\<close> is \<^verbatim>\<open>Tournament.Id\<close>.
\<close>

definition TOURNAMENT_STATUS_PROVISIONAL :: string where
  "TOURNAMENT_STATUS_PROVISIONAL = ''PROVISIONAL''"

definition TOURNAMENT_STATUS_ANNOUNCED :: string where
  "TOURNAMENT_STATUS_ANNOUNCED = ''ANNOUNCED''"

definition TOURNAMENT_STATUS_DONE :: string where
  "TOURNAMENT_STATUS_DONE = ''DONE''"

definition TOURNAMENT_STATUS_CANCELLED :: string where
  "TOURNAMENT_STATUS_CANCELLED = ''CANCELLED''"

definition EVENT_TYPE_TURNAMENT :: int where
  "EVENT_TYPE_TURNAMENT = 0"

definition EVENT_TYPE_REGISTRATION :: int where
  "EVENT_TYPE_REGISTRATION = 1"

record Registration =
  rTitle :: string
  rStartDate :: Time
  rEndDate :: Time

record Tournament =
  tId :: int
  Status :: string
  UpdatedAt :: Time
  StartDate :: Time
  EndDate :: Time
  Title :: string
  Localtion :: string
  GeoLocation :: string
  Series :: "string list"
  PdgaTier :: string
  PdgaId :: string
  DRating :: bool
  Registrations :: "Registration list"

record SubscriptionConfig =
  cfgTournaments :: "int list"
  cfgSeries :: "string list"

record Calendar =
  cId :: string
  cTitle :: string
  cEmail :: string
  cCreatedAt :: Time
  cUpdatedAt :: Time
  cRetrievedAt :: "Time option"
  Config :: SubscriptionConfig

record RegistrationPhase =
  pName :: string
  pStartDate :: Time
  pEndDate :: Time

record EventDetails =
  dID :: int
  dTitle :: string
  dStartDate :: Time
  dEndDate :: Time
  dLocation :: string
  dGeoLocation :: string
  dSeries :: "string list"
  dPDGATier :: string
  dPDGAId :: string
  dDRatingConsideration :: bool
  dRegistrationPhases :: "RegistrationPhase list"

text \<open>
  The zero value of a Go struct: the zero \<^verbatim>\<open>time.Time\<close> is 0001-01-01 00:00:00 UTC.
\<close>

definition UTC :: Location where
  "UTC = \<lparr>offset0 = 0, zoneTrans = []\<rparr>"

definition zeroTime :: Time where
  "zeroTime = \<lparr>unixNano = - 62135596800 * 1000000000, loc = UTC\<rparr>"

definition zeroTournament :: Tournament where
  "zeroTournament = \<lparr>tId = 0, Status = [], UpdatedAt = zeroTime, StartDate = zeroTime,
     EndDate = zeroTime, Title = [], Localtion = [], GeoLocation = [], Series = [],
     PdgaTier = [], PdgaId = [], DRating = False, Registrations = []\<rparr>"

section \<open>Failures\<close>

text \<open>
  Every error return of the source is a value of \<open>failure\<close>. \<open>NotFoundError\<close> is the
  package variable of the same name. \<open>PanicIndexOutOfRange\<close> is not an error value: it
  stands for the run-time panic of an out-of-range slice index, which unwinds the caller.
\<close>

datatype failure =
    NotFoundError
  | DbError
  | JsonError
  | FetchError
  | UnknownUidFormat
  | IdNotAnInt
  | PropertyError
  | ParseStartError
  | ParseEndError
  | PanicIndexOutOfRange

fun isPanic :: "failure \<Rightarrow> bool" where
  "isPanic PanicIndexOutOfRange = True"
| "isPanic _ = False"

section \<open>The store (package db)\<close>

text \<open>
  The tables of \<^verbatim>\<open>initDB\<close> that the services use. A table is the list of its rows
  in insertion order. The statements are modelled by what SQLite does with them: an
  \<^verbatim>\<open>INSERT ... ON CONFLICT DO UPDATE\<close> rewrites the conflicting row in place,
  a plain \<^verbatim>\<open>INSERT\<close> fails on a \<^verbatim>\<open>UNIQUE\<close> conflict. A statement can
  also fail for reasons outside the program (I/O); \<open>fault\<close> says for which operations it does.
\<close>

record tournament_row =
  col_id :: int
  col_title :: string
  col_status :: string
  col_location :: string
  col_geo_location :: string
  col_updated_at :: Time
  col_start_date :: Time
  col_end_date :: Time
  col_series :: "string list"
  col_pdga_tier :: string
  col_pdga_id :: string
  col_drating :: bool

record registration_row =
  reg_id :: int
  reg_title :: string
  reg_start_date :: Time
  reg_end_date :: Time

record calendar_row =
  cal_id :: string
  cal_edit_id :: string
  cal_title :: string
  cal_email :: string
  cal_created_at :: Time
  cal_updated_at :: Time
  cal_subscription_config :: "SubscriptionConfig option"
  cal_retrieved_at :: "Time option"

record history_row =
  h_tournament_id :: int
  h_date :: Time
  h_updated_at :: Time
  h_snapshot :: Tournament

record Repo =
  tournaments_tbl :: "tournament_row list"
  registrations_tbl :: "registration_row list"
  calendars_tbl :: "calendar_row list"
  tournament_history :: "history_row list"

datatype db_op =
    OpGetCalendar string
  | OpGetCalendarUpdateCount
  | OpSetCalendarRetrievedAt string
  | OpUpsertTournament int
  | OpUpsertRegistration int string
  | OpCreateTurnamentHistory int
  | OpGetAllTournaments

subsection \<open>Calendars\<close>

text \<open>
  \<^verbatim>\<open>getCalendar\<close>: the first row whose id column matches. The stored configuration is
  JSON text; \<open>cal_subscription_config\<close> is what \<^verbatim>\<open>json.Unmarshal\<close> makes of it
  (\<open>None\<close>: it fails).
\<close>

datatype id_column = ColId | ColEditId

fun getCalendar :: "(db_op \<Rightarrow> bool) \<Rightarrow> Repo \<Rightarrow> id_column \<Rightarrow> string \<Rightarrow> failure + Calendar option" where
  "getCalendar fault r col i =
     (if fault (OpGetCalendar i) then Inl DbError
      else
        (case List.find (\<lambda>row. (case col of ColId \<Rightarrow> cal_id row | ColEditId \<Rightarrow> cal_edit_id row) = i)
                (calendars_tbl r) of
          None \<Rightarrow> Inr None
        | Some row \<Rightarrow>
            (case cal_subscription_config row of
              None \<Rightarrow> Inl JsonError
            | Some cfg \<Rightarrow>
                Inr (Some \<lparr>cId = cal_id row, cTitle = cal_title row, cEmail = cal_email row,
                           cCreatedAt = cal_created_at row, cUpdatedAt = cal_updated_at row,
                           cRetrievedAt = cal_retrieved_at row, Config = cfg\<rparr>))))"

definition GetCalendarById :: "(db_op \<Rightarrow> bool) \<Rightarrow> Repo \<Rightarrow> string \<Rightarrow> failure + Calendar option" where
  "GetCalendarById fault r i = getCalendar fault r ColId i"

definition GetCalendarByEditId :: "(db_op \<Rightarrow> bool) \<Rightarrow> Repo \<Rightarrow> string \<Rightarrow> failure + Calendar option" where
  "GetCalendarByEditId fault r i = getCalendar fault r ColEditId i"

text \<open>
  \<^verbatim>\<open>SetCalendarRetrievedAt\<close>: \<^verbatim>\<open>UPDATE calendars SET retrieved_at = ? WHERE id = ?\<close>.
\<close>

definition SetCalendarRetrievedAt :: "(db_op \<Rightarrow> bool) \<Rightarrow> Time \<Rightarrow> Repo \<Rightarrow> string \<Rightarrow> Repo \<times> failure option" where
  "SetCalendarRetrievedAt fault now r i =
     (if fault (OpSetCalendarRetrievedAt i) then (r, Some DbError)
      else (r\<lparr>calendars_tbl :=
                 map (\<lambda>row. if cal_id row = i then row\<lparr>cal_retrieved_at := Some now\<rparr> else row)
                   (calendars_tbl r)\<rparr>, None))"

subsection \<open>The revision counter\<close>

text \<open>
  \<^verbatim>\<open>SELECT tournament_id, count(*) FROM tournament_history GROUP BY tournament_id\<close>:
  one result row per tournament id that has a snapshot, with the number of its snapshots.
  \<^verbatim>\<open>GetCalendarUpdateCount\<close> copies the result rows into a map.
\<close>

definition countSnapshots :: "history_row list \<Rightarrow> int \<Rightarrow> int" where
  "countSnapshots h i = int (length (filter (\<lambda>row. h_tournament_id row = i) h))"

definition selectCountGroupBy :: "history_row list \<Rightarrow> (int \<times> int) list" where
  "selectCountGroupBy h = map (\<lambda>i. (i, countSnapshots h i)) (remdups (map h_tournament_id h))"

fun scanRows :: "(int \<times> int) list \<Rightarrow> (int \<rightharpoonup> int) \<Rightarrow> (int \<rightharpoonup> int)" where
  "scanRows [] result = result"
| "scanRows ((i, count) # rows) result = scanRows rows (result(i \<mapsto> count))"

definition GetCalendarUpdateCount :: "(db_op \<Rightarrow> bool) \<Rightarrow> Repo \<Rightarrow> failure + (int \<rightharpoonup> int)" where
  "GetCalendarUpdateCount fault r =
     (if fault OpGetCalendarUpdateCount then Inl DbError
      else Inr (scanRows (selectCountGroupBy (tournament_history r)) Map.empty))"

text \<open>Reading a Go \<^verbatim>\<open>map[int]int\<close> at a key it does not hold gives 0.\<close>

definition mapIndex :: "(int \<rightharpoonup> int) \<Rightarrow> int \<Rightarrow> int" where
  "mapIndex m k = (case m k of None \<Rightarrow> 0 | Some v \<Rightarrow> v)"

section \<open>The tournament service (package service)\<close>

text \<open>
  \<^verbatim>\<open>TournamentService.tournaments\<close> is a \<^verbatim>\<open>map[int]*model.Tournament\<close>: the map
  holds pointers, and \<^verbatim>\<open>CreateIcs\<close> compares them. A pointer is an address of \<open>heap\<close>;
  \<open>nextPtr\<close> is the first address not yet allocated. A nil pointer is \<open>None\<close>.
\<close>

type_synonym ptr = nat

record TournamentService =
  tournaments :: "int \<rightharpoonup> ptr"
  heap :: "ptr \<Rightarrow> Tournament"
  nextPtr :: ptr
  lastSync :: "Time option"

definition GetTournament :: "TournamentService \<Rightarrow> int \<Rightarrow> ptr option" where
  "GetTournament s i = tournaments s i"

text \<open>
  \<^verbatim>\<open>getTournaments\<close> ranges over the map. Go leaves the order of a map range open;
  \<open>order\<close> is the order in which this run visits the keys.
\<close>

fun getTournaments :: "TournamentService \<Rightarrow> int list \<Rightarrow> (Tournament \<Rightarrow> bool) \<Rightarrow> ptr list" where
  "getTournaments s [] flt = []"
| "getTournaments s (k # order) flt =
     (case tournaments s k of
        None \<Rightarrow> getTournaments s order flt
      | Some t \<Rightarrow>
          (if flt (heap s t) then t # getTournaments s order flt
           else getTournaments s order flt))"

fun seriesFilter :: "string list \<Rightarrow> string list \<Rightarrow> bool" where
  "seriesFilter series [] = False"
| "seriesFilter series (se # rest) = (if se \<in> set series then True else seriesFilter series rest)"

definition GetTournamentsForSeries :: "TournamentService \<Rightarrow> int list \<Rightarrow> string list \<Rightarrow> ptr list" where
  "GetTournamentsForSeries s order series =
     getTournaments s order (\<lambda>t. seriesFilter series (Series t))"

section \<open>The calendar service\<close>

datatype CalId = CalendarId string | CalendarEditId string

fun GetCalendar :: "(db_op \<Rightarrow> bool) \<Rightarrow> Repo \<Rightarrow> CalId \<Rightarrow> failure + Calendar option" where
  "GetCalendar fault r (CalendarId i) = GetCalendarById fault r i"
| "GetCalendar fault r (CalendarEditId i) = GetCalendarByEditId fault r i"

definition GetUpdateCount :: "(db_op \<Rightarrow> bool) \<Rightarrow> Repo \<Rightarrow> failure + (int \<rightharpoonup> int)" where
  "GetUpdateCount fault r = GetCalendarUpdateCount fault r"

section \<open>Feed generation (IcsService.CreateIcs)\<close>

subsection \<open>Formatting\<close>

text \<open>The verb \<^verbatim>\<open>%d\<close> of \<^verbatim>\<open>fmt.Sprintf\<close>: decimal digits, with a minus sign below zero.\<close>

fun digitsOf :: "nat \<Rightarrow> nat \<Rightarrow> string" where
  "digitsOf 0 n = []"
| "digitsOf (Suc fuel) n =
    (if n < 10 then [''0123456789'' ! n]
     else digitsOf fuel (n div 10) @ [''0123456789'' ! (n mod 10)])"

definition fmtInt :: "int \<Rightarrow> string" where
  "fmtInt i = (if i < 0 then CHR ''-'' # digitsOf (Suc (nat (- i))) (nat (- i))
               else digitsOf (Suc (nat i)) (nat i))"

definition tournamentUid :: "int \<Rightarrow> string" where
  "tournamentUid i = ''tournament-'' @ fmtInt i @ ''@dg-cal''"

definition registrationUid :: "int \<Rightarrow> nat \<Rightarrow> string" where
  "registrationUid i n = ''registration-'' @ fmtInt i @ ''-'' @ fmtInt (int n) @ ''@dg-cal''"

definition tournamentUrl :: "int \<Rightarrow> string" where
  "tournamentUrl i = ''https://turniere.discgolf.de/index.php?p=events&sp=view&id='' @ fmtInt i"

subsection \<open>The export\<close>

text \<open>
  The export is kept as the calendar object that \<^verbatim>\<open>CreateIcs\<close> builds, before
  \<^verbatim>\<open>Serialize\<close> turns it into text: the events in the order they were added, each with
  the properties the code sets.
\<close>

record VAlarm =
  alDescription :: string
  alAction :: string
  alTrigger :: string

record VEvent =
  evUid :: string
  evSequence :: int
  evDtStamp :: Time
  evSummary :: string
  evDescription :: string
  evAllDayStart :: "Time option"
  evAllDayEnd :: "Time option"
  evStart :: "Time option"
  evEnd :: "Time option"
  evTransparent :: bool
  evLocation :: "string option"
  evRelatedTo :: "string option"
  evAllDayFlag :: bool
  evAlarms :: "VAlarm list"

record IcsCalendar =
  icsProductId :: string
  icsMethod :: string
  icsName :: string
  icsEvents :: "VEvent list"

definition tournamentEvent :: "(int \<rightharpoonup> int) \<Rightarrow> Tournament \<Rightarrow> VEvent" where
  "tournamentEvent updateCount t =
     \<lparr>evUid = tournamentUid (tId t),
      evSequence = mapIndex updateCount (tId t),
      evDtStamp = UpdatedAt t,
      evSummary = Title t,
      evDescription = tournamentUrl (tId t),
      evAllDayStart = Some (StartDate t),
      evAllDayEnd = Some (Add (EndDate t) (Hour * 24)),
      evStart = None,
      evEnd = None,
      evTransparent = True,
      evLocation = Some (Localtion t),
      evRelatedTo = None,
      evAllDayFlag = True,
      evAlarms = []\<rparr>"

definition registrationEvent :: "(int \<rightharpoonup> int) \<Rightarrow> Tournament \<Rightarrow> nat \<Rightarrow> Registration \<Rightarrow> VEvent" where
  "registrationEvent updateCount t i reg =
     \<lparr>evUid = registrationUid (tId t) i,
      evSequence = mapIndex updateCount (tId t),
      evDtStamp = UpdatedAt t,
      evSummary = ''Anmeldung: '' @ Title t,
      evDescription = rTitle reg @ [CHR 0x0A] @ tournamentUrl (tId t),
      evAllDayStart = None,
      evAllDayEnd = None,
      evStart = Some (rStartDate reg),
      evEnd = Some (Add (rStartDate reg) (Hour * 2)),
      evTransparent = True,
      evLocation = None,
      evRelatedTo = Some (tournamentUid (tId t)),
      evAllDayFlag = False,
      evAlarms = [\<lparr>alDescription = ''Anmeldung: '' @ Title t @ '' ('' @ rTitle reg @ '')'',
                    alAction = ''DISPLAY'', alTrigger = ''-PT15M''\<rparr>]\<rparr>"

fun registrationEvents :: "(int \<rightharpoonup> int) \<Rightarrow> Tournament \<Rightarrow> nat \<Rightarrow> Registration list \<Rightarrow> VEvent list" where
  "registrationEvents updateCount t i [] = []"
| "registrationEvents updateCount t i (reg # regs) =
     registrationEvent updateCount t i reg # registrationEvents updateCount t (Suc i) regs"

text \<open>
  The first loop of \<^verbatim>\<open>CreateIcs\<close>: every explicitly listed id is looked up, and the
  pointer found (nil for an unknown id) is appended unless the slice already holds it.
\<close>

fun appendListed :: "TournamentService \<Rightarrow> int list \<Rightarrow> ptr option list \<Rightarrow> ptr option list" where
  "appendListed s [] ts = ts"
| "appendListed s (tid # tids) ts =
     (let tournament = GetTournament s tid
      in if tournament \<in> set ts then appendListed s tids ts
         else appendListed s tids (ts @ [tournament]))"

definition resolveTournaments :: "TournamentService \<Rightarrow> int list \<Rightarrow> SubscriptionConfig \<Rightarrow> ptr option list" where
  "resolveTournaments s order cfg =
     appendListed s (cfgTournaments cfg) (map Some (GetTournamentsForSeries s order (cfgSeries cfg)))"

text \<open>The second loop: nil entries are skipped, every other entry adds its events.\<close>

fun addEvents :: "TournamentService \<Rightarrow> (int \<rightharpoonup> int) \<Rightarrow> ptr option list \<Rightarrow> VEvent list" where
  "addEvents s updateCount [] = []"
| "addEvents s updateCount (None # ts) = addEvents s updateCount ts"
| "addEvents s updateCount (Some p # ts) =
     (tournamentEvent updateCount (heap s p)
        # registrationEvents updateCount (heap s p) 0 (Registrations (heap s p)))
     @ addEvents s updateCount ts"

text \<open>
  \<open>now\<close> is what \<^verbatim>\<open>time.Now()\<close> returns inside \<^verbatim>\<open>SetCalendarRetrievedAt\<close>, whose
  error is logged and dropped.
\<close>

definition CreateIcs ::
  "(db_op \<Rightarrow> bool) \<Rightarrow> Time \<Rightarrow> int list \<Rightarrow> TournamentService \<Rightarrow> Repo \<Rightarrow> string
     \<Rightarrow> Repo \<times> (failure + IcsCalendar)" where
  "CreateIcs fault now order s r i =
     (case GetCalendar fault r (CalendarId i) of
        Inl err \<Rightarrow> (r, Inl err)
      | Inr None \<Rightarrow> (r, Inl NotFoundError)
      | Inr (Some calendar) \<Rightarrow>
          (case GetUpdateCount fault r of
             Inl err \<Rightarrow> (r, Inl err)
           | Inr updateCount \<Rightarrow>
               (let ts = resolveTournaments s order (Config calendar);
                    icsCal = \<lparr>icsProductId = ''dg-cal v0.1'', icsMethod = ''PUBLISH'',
                              icsName = cTitle calendar,
                              icsEvents = addEvents s updateCount ts\<rparr>;
                    r' = fst (SetCalendarRetrievedAt fault now r (cId calendar))
                in (r', Inr icsCal))))"

subsection \<open>The HTTP handler\<close>

text \<open>
  The handler answers 404 for \<open>NotFoundError\<close>, 500 for any other error, and 200 with the
  export otherwise. Before it writes the export it calls \<^verbatim>\<open>addCachingHeader\<close>, which
  dereferences the result of \<^verbatim>\<open>GetLastSync\<close>: while no sync has completed that is nil, the
  handler panics after \<^verbatim>\<open>CreateIcs\<close> has run, and the server sends no response (status 0
  and \<open>NoResponse\<close> here).
\<close>

datatype response_body = ErrorText string | ErrorOf failure | CalendarBody IcsCalendar | NoResponse

definition IcsHandler ::
  "(db_op \<Rightarrow> bool) \<Rightarrow> Time \<Rightarrow> int list \<Rightarrow> TournamentService \<Rightarrow> Repo \<Rightarrow> string
     \<Rightarrow> Repo \<times> nat \<times> response_body" where
  "IcsHandler fault now order s r i =
     (case CreateIcs fault now order s r i of
        (r', Inl err) \<Rightarrow>
          (if err = NotFoundError then (r', 404, ErrorText ''Not found'')
           else (r', 500, ErrorOf err))
      | (r', Inr result) \<Rightarrow>
          (case lastSync s of
             None \<Rightarrow> (r', 0, NoResponse)
           | Some t \<Rightarrow> (r', 200, CalendarBody result)))"

section \<open>Calendar arithmetic (package time)\<close>

text \<open>
  The functions of the Go library that the extractors call, by what they compute. A zone
  lookup gives the offset in force at an instant together with the bounds of the interval in
  which it is in force.
\<close>

definition alpha :: int where
  "alpha = - (2 ^ 63)"

definition omega :: int where
  "omega = 2 ^ 63 - 1"

fun lookupFrom :: "int \<Rightarrow> int \<Rightarrow> (int \<times> int) list \<Rightarrow> int \<Rightarrow> int \<times> int \<times> int" where
  "lookupFrom off start [] sec = (off, start, omega)"
| "lookupFrom off start ((w, off') # rest) sec =
     (if sec < w then (off, start, w) else lookupFrom off' w rest sec)"

definition lookup :: "Location \<Rightarrow> int \<Rightarrow> int \<times> int \<times> int" where
  "lookup l sec = lookupFrom (offset0 l) alpha (zoneTrans l) sec"

definition zoneOffset :: "Location \<Rightarrow> int \<Rightarrow> int" where
  "zoneOffset l sec = fst (lookup l sec)"

definition isLeap :: "int \<Rightarrow> bool" where
  "isLeap y = (y mod 4 = 0 \<and> (y mod 100 \<noteq> 0 \<or> y mod 400 = 0))"

definition daysBefore :: "int list" where
  "daysBefore = [0, 31, 59, 90, 120, 151, 181, 212, 243, 273, 304, 334, 365]"

text \<open>Days of the year before the first of month \<open>m\<close> (1 to 12; 13 gives the year's length).\<close>

definition daysBeforeMonth :: "int \<Rightarrow> int \<Rightarrow> int" where
  "daysBeforeMonth y m = daysBefore ! nat (m - 1) + (if isLeap y \<and> 3 \<le> m then 1 else 0)"

definition daysIn :: "int \<Rightarrow> int \<Rightarrow> int" where
  "daysIn m y = daysBeforeMonth y (m + 1) - daysBeforeMonth y m"

text \<open>Days from 1970-01-01 to the first of January of year \<open>y\<close>.\<close>

definition daysSinceEpoch :: "int \<Rightarrow> int" where
  "daysSinceEpoch y =
     365 * (y - 1970) + (y - 1) div 4 - (y - 1) div 100 + (y - 1) div 400 - 477"

text \<open>
  The year of a day number (days since 1970-01-01), by cycles of 400, 100, 4 and 1 years
  counted from 0001-01-01; the month is the last one that has begun.
\<close>

definition yearOfDay :: "int \<Rightarrow> int" where
  "yearOfDay n =
     (let d0 = n + 719162;
          n400 = d0 div 146097;
          d1 = d0 mod 146097;
          n100 = min 3 (d1 div 36524);
          d2 = d1 - 36524 * n100;
          n4 = d2 div 1461;
          d3 = d2 mod 1461;
          n1 = min 3 (d3 div 365)
      in 1 + 400 * n400 + 100 * n100 + 4 * n4 + n1)"

definition monthOfYday :: "int \<Rightarrow> int \<Rightarrow> int" where
  "monthOfYday y yday =
     1 + int (length (filter (\<lambda>m. daysBeforeMonth y m \<le> yday) [2, 3, 4, 5, 6, 7, 8, 9, 10, 11, 12]))"

definition civil :: "int \<Rightarrow> int \<times> int \<times> int" where
  "civil n =
     (let y = yearOfDay n;
          yday = n - daysSinceEpoch y;
          m = monthOfYday y yday
      in (y, m, yday - daysBeforeMonth y m + 1))"

text \<open>
  The accessors of a time read the wall clock of its location: the instant shifted by the
  offset in force at it.
\<close>

definition unixSec :: "Time \<Rightarrow> int" where
  "unixSec t = unixNano t div 1000000000"

definition Nanosecond :: "Time \<Rightarrow> int" where
  "Nanosecond t = unixNano t mod 1000000000"

definition localSec :: "Time \<Rightarrow> int" where
  "localSec t = unixSec t + zoneOffset (loc t) (unixSec t)"

definition localDay :: "Time \<Rightarrow> int" where
  "localDay t = localSec t div 86400"

definition secondOfDay :: "Time \<Rightarrow> int" where
  "secondOfDay t = localSec t mod 86400"

definition Year :: "Time \<Rightarrow> int" where
  "Year t = fst (civil (localDay t))"

definition Month :: "Time \<Rightarrow> int" where
  "Month t = fst (snd (civil (localDay t)))"

definition Day :: "Time \<Rightarrow> int" where
  "Day t = snd (snd (civil (localDay t)))"

definition HourOf :: "Time \<Rightarrow> int" where
  "HourOf t = secondOfDay t div 3600"

definition Minute :: "Time \<Rightarrow> int" where
  "Minute t = secondOfDay t mod 3600 div 60"

definition Second :: "Time \<Rightarrow> int" where
  "Second t = secondOfDay t mod 60"

text \<open>
  \<^verbatim>\<open>time.Date\<close>: the fields need not be in range; a month outside 1 to 12 carries into
  the year, and days, hours, minutes, seconds and nanoseconds just add up. The wall-clock
  reading is turned into an instant with the offset that a lookup finds: first at the reading
  taken as UTC, and once more at the shifted instant when that falls outside the interval found.
\<close>

definition wallSeconds :: "int \<Rightarrow> int \<Rightarrow> int \<Rightarrow> int \<Rightarrow> int \<Rightarrow> int \<Rightarrow> int \<Rightarrow> int" where
  "wallSeconds year month day hour minute sec nsec =
     (let m = month - 1;
          year' = year + m div 12;
          month' = m mod 12 + 1;
          d = daysSinceEpoch year' + daysBeforeMonth year' month' + (day - 1)
      in d * 86400 + hour * 3600 + minute * 60 + sec + nsec div 1000000000)"

definition resolveWall :: "Location \<Rightarrow> int \<Rightarrow> int" where
  "resolveWall l unix =
     (let (offset, start, stop) = lookup l unix
      in if offset \<noteq> 0
         then (let utc = unix - offset
               in if utc < start \<or> stop \<le> utc then unix - zoneOffset l utc
                  else unix - offset)
         else unix)"

definition Date :: "int \<Rightarrow> int \<Rightarrow> int \<Rightarrow> int \<Rightarrow> int \<Rightarrow> int \<Rightarrow> int \<Rightarrow> Location \<Rightarrow> Time" where
  "Date year month day hour minute sec nsec l =
     \<lparr>unixNano = resolveWall l (wallSeconds year month day hour minute sec nsec) * 1000000000
                   + nsec mod 1000000000,
      loc = l\<rparr>"

definition AddDate :: "Time \<Rightarrow> int \<Rightarrow> int \<Rightarrow> int \<Rightarrow> Time" where
  "AddDate t years months days =
     Date (Year t + years) (Month t + months) (Day t + days)
       (HourOf t) (Minute t) (Second t) (Nanosecond t) (loc t)"

section \<open>Strings (packages strings and strconv)\<close>

text \<open>The separator of every split in the source is the one-character string \<^verbatim>\<open>"-"\<close>.\<close>

fun Split :: "string \<Rightarrow> char \<Rightarrow> string list" where
  "Split [] sep = [[]]"
| "Split (c # cs) sep =
     (if c = sep then [] # Split cs sep
      else (case Split cs sep of [] \<Rightarrow> [[c]] | p # ps \<Rightarrow> (c # p) # ps))"

fun cutAfter :: "char \<Rightarrow> string \<Rightarrow> (string \<times> string) option" where
  "cutAfter sep [] = None"
| "cutAfter sep (c # cs) =
     (if c = sep then Some ([c], cs)
      else (case cutAfter sep cs of None \<Rightarrow> None | Some (pre, rest) \<Rightarrow> Some (c # pre, rest)))"

fun genSplitAfter :: "nat \<Rightarrow> string \<Rightarrow> char \<Rightarrow> string list" where
  "genSplitAfter 0 s sep = [s]"
| "genSplitAfter (Suc k) s sep =
     (case cutAfter sep s of None \<Rightarrow> [s] | Some (pre, rest) \<Rightarrow> pre # genSplitAfter k rest sep)"

text \<open>\<^verbatim>\<open>strings.SplitAfterN\<close>: at most \<open>n\<close> pieces, each but the last ending in the separator.\<close>

definition SplitAfterN :: "string \<Rightarrow> char \<Rightarrow> nat \<Rightarrow> string list" where
  "SplitAfterN s sep n = (if n = 0 then [] else genSplitAfter (min n (length s + 1) - 1) s sep)"

definition CutSuffix :: "string \<Rightarrow> string \<Rightarrow> string \<times> bool" where
  "CutSuffix s suffix =
     (if length suffix \<le> length s \<and> drop (length s - length suffix) s = suffix
      then (take (length s - length suffix) s, True)
      else (s, False))"

text \<open>
  \<^verbatim>\<open>strings.TrimSpace\<close> removes leading and trailing white space as Unicode defines it
  (\<^verbatim>\<open>unicode.IsSpace\<close>). A text is its UTF-8 bytes, so the white-space characters are
  listed by their encodings: the six of ASCII, U+0085 and U+00A0, U+1680, U+2000 to U+200A,
  U+2028, U+2029, U+202F, U+205F and U+3000. A text starts (ends) with one of these
  characters exactly when it starts (ends) with the bytes of its encoding.
\<close>

definition spaceRunes :: "string list" where
  "spaceRunes =
     [[CHR 0x09], [CHR 0x0A], [CHR 0x0B], [CHR 0x0C], [CHR 0x0D], [CHR 0x20],
      [CHR 0xC2, CHR 0x85], [CHR 0xC2, CHR 0xA0],
      [CHR 0xE1, CHR 0x9A, CHR 0x80],
      [CHR 0xE2, CHR 0x80, CHR 0x80], [CHR 0xE2, CHR 0x80, CHR 0x81],
      [CHR 0xE2, CHR 0x80, CHR 0x82], [CHR 0xE2, CHR 0x80, CHR 0x83],
      [CHR 0xE2, CHR 0x80, CHR 0x84], [CHR 0xE2, CHR 0x80, CHR 0x85],
      [CHR 0xE2, CHR 0x80, CHR 0x86], [CHR 0xE2, CHR 0x80, CHR 0x87],
      [CHR 0xE2, CHR 0x80, CHR 0x88], [CHR 0xE2, CHR 0x80, CHR 0x89],
      [CHR 0xE2, CHR 0x80, CHR 0x8A],
      [CHR 0xE2, CHR 0x80, CHR 0xA8], [CHR 0xE2, CHR 0x80, CHR 0xA9],
      [CHR 0xE2, CHR 0x80, CHR 0xAF], [CHR 0xE2, CHR 0x81, CHR 0x9F],
      [CHR 0xE3, CHR 0x80, CHR 0x80]]"

definition leadingSpace :: "string \<Rightarrow> nat" where
  "leadingSpace s =
     (case find (\<lambda>e. take (length e) s = e) spaceRunes of None \<Rightarrow> 0 | Some e \<Rightarrow> length e)"

definition trailingSpace :: "string \<Rightarrow> nat" where
  "trailingSpace s =
     (case find (\<lambda>e. length e \<le> length s \<and> drop (length s - length e) s = e) spaceRunes of
        None \<Rightarrow> 0 | Some e \<Rightarrow> length e)"

function TrimLeft :: "string \<Rightarrow> string" where
  "TrimLeft s = (if leadingSpace s = 0 then s else TrimLeft (drop (leadingSpace s) s))"
  by pat_completeness auto
termination
proof (relation "measure length")
  show "wf (measure length)" by simp
next
  fix s :: string
  assume w: "leadingSpace s \<noteq> 0"
  have "leadingSpace [] = 0" unfolding leadingSpace_def spaceRunes_def by simp
  with w have "s \<noteq> []" by auto
  with w show "(drop (leadingSpace s) s, s) \<in> measure length" by simp
qed

function TrimRight :: "string \<Rightarrow> string" where
  "TrimRight s = (if trailingSpace s = 0 then s else TrimRight (take (length s - trailingSpace s) s))"
  by pat_completeness auto
termination
proof (relation "measure length")
  show "wf (measure length)" by simp
next
  fix s :: string
  assume w: "trailingSpace s \<noteq> 0"
  have "trailingSpace [] = 0" unfolding trailingSpace_def spaceRunes_def by simp
  with w have "s \<noteq> []" by auto
  with w show "(take (length s - trailingSpace s) s, s) \<in> measure length" by simp
qed

definition TrimSpace :: "string \<Rightarrow> string" where
  "TrimSpace s = TrimRight (TrimLeft s)"

definition isDigit :: "char \<Rightarrow> bool" where
  "isDigit c = (c \<in> set ''0123456789'')"

definition digitVal :: "char \<Rightarrow> int" where
  "digitVal c = int (of_char c) - 48"

fun digitsVal :: "int \<Rightarrow> string \<Rightarrow> int" where
  "digitsVal acc [] = acc"
| "digitsVal acc (c # cs) = digitsVal (acc * 10 + digitVal c) cs"

text \<open>
  \<^verbatim>\<open>strconv.Atoi\<close>: an optional sign, then one or more decimal digits, and a value that
  fits an \<^verbatim>\<open>int\<close> of 64 bits.
\<close>

definition Atoi :: "string \<Rightarrow> int option" where
  "Atoi s =
     (let (neg, ds) = (case s of
                         [] \<Rightarrow> (False, [])
                       | c # rest \<Rightarrow> if c = CHR ''-'' then (True, rest)
                                    else if c = CHR ''+'' then (False, rest)
                                    else (False, s))
      in if ds = [] \<or> \<not> list_all isDigit ds then None
         else (let v = (if neg then - digitsVal 0 ds else digitsVal 0 ds)
               in if v < - (2 ^ 63) \<or> 2 ^ 63 - 1 < v then None else Some v))"

section \<open>The schedule feed extractor (gto/ics.go)\<close>

text \<open>
  An event of the parsed feed, by what the calendar library's accessors return for it:
  \<^verbatim>\<open>Id()\<close>, \<^verbatim>\<open>GetStartAt()\<close>, \<^verbatim>\<open>GetEndAt()\<close> and the summary property
  (\<open>None\<close> when the event has none).
\<close>

record IcsEvent =
  ieId :: string
  ieStartAt :: "failure + Time"
  ieEndAt :: "failure + Time"
  ieSummary :: "string option"

text \<open>
  \<^verbatim>\<open>typeAndId\<close> reads \<^verbatim>\<open>parts[1]\<close>, and \<^verbatim>\<open>parts[2]\<close> for a registration,
  without looking at the length of \<^verbatim>\<open>parts\<close>: an index past the end panics.
\<close>

definition typeAndId :: "string \<Rightarrow> failure + (int \<times> int)" where
  "typeAndId uid =
     (let (s, ok) = CutSuffix uid ''@turniere.discgolf.de''
      in if \<not> ok then Inl UnknownUidFormat
         else
           (let parts = SplitAfterN s CHR ''-'' 3
            in if length parts \<le> 1 then Inl PanicIndexOutOfRange
               else if parts ! 0 = ''registration-''
               then (if length parts \<le> 2 then Inl PanicIndexOutOfRange
                     else (case Atoi (parts ! 2) of
                             None \<Rightarrow> Inl IdNotAnInt
                           | Some tid \<Rightarrow> Inr (EVENT_TYPE_REGISTRATION, tid)))
               else (case Atoi (parts ! 1) of
                       None \<Rightarrow> Inl IdNotAnInt
                     | Some tid \<Rightarrow> Inr (EVENT_TYPE_TURNAMENT, tid))))"

definition parseTournament :: "IcsEvent \<Rightarrow> Tournament \<Rightarrow> failure + Tournament" where
  "parseTournament event tournament =
     (case ieStartAt event of
        Inl err \<Rightarrow> Inl err
      | Inr dtStart \<Rightarrow>
          (case ieEndAt event of
             Inl err \<Rightarrow> Inl err
           | Inr dtEnd \<Rightarrow>
               Inr (tournament
                 \<lparr>StartDate := dtStart,
                  EndDate := AddDate (Date (Year dtEnd) (Month dtEnd) (Day dtEnd) 0 0 0 0 (loc dtEnd))
                               0 0 (- 1),
                  Title := (case ieSummary event of None \<Rightarrow> [] | Some v \<Rightarrow> v)\<rparr>)))"

text \<open>
  \<^verbatim>\<open>parseIcsEvents\<close> builds a map of fresh tournaments, one per id; the map is local
  to the call, so it is kept as a map of records.
\<close>

fun parseIcsEventsFrom :: "IcsEvent list \<Rightarrow> (int \<rightharpoonup> Tournament) \<Rightarrow> failure + (int \<rightharpoonup> Tournament)" where
  "parseIcsEventsFrom [] result = Inr result"
| "parseIcsEventsFrom (event # events) result =
     (case typeAndId (ieId event) of
        Inl err \<Rightarrow> Inl err
      | Inr (t, i) \<Rightarrow>
          (let tournament = (case result i of None \<Rightarrow> zeroTournament\<lparr>tId := i\<rparr> | Some tm \<Rightarrow> tm);
               result' = result(i \<mapsto> tournament)
           in if t = EVENT_TYPE_REGISTRATION then parseIcsEventsFrom events result'
              else (case parseTournament event tournament of
                      Inl err \<Rightarrow> Inl err
                    | Inr tournament' \<Rightarrow> parseIcsEventsFrom events (result'(i \<mapsto> tournament')))))"

definition parseIcsEvents :: "IcsEvent list \<Rightarrow> failure + (int \<rightharpoonup> Tournament)" where
  "parseIcsEvents events = parseIcsEventsFrom events Map.empty"

record tournamentUpdate =
  updated :: Time
  status :: string

text \<open>
  \<^verbatim>\<open>FetchTournaments\<close>. Its two downloads are inputs: \<open>updates\<close> is the result of
  \<^verbatim>\<open>fetchTournamentUpdates\<close> (the entries of the map in the order the range visits
  them) and \<open>fetched\<close> the result of \<^verbatim>\<open>fetchIcs\<close>; \<open>feed\<close> is the map
  \<^verbatim>\<open>tournaments\<close> that \<^verbatim>\<open>parseIcsEvents\<close> returns.
\<close>

fun mergeUpdates ::
  "(int \<times> tournamentUpdate) list \<Rightarrow> (int \<rightharpoonup> Tournament) \<Rightarrow> (int \<rightharpoonup> Tournament) \<Rightarrow> (int \<rightharpoonup> Tournament)" where
  "mergeUpdates [] feed result = result"
| "mergeUpdates ((i, update) # rest) feed result =
     (case feed i of
        None \<Rightarrow>
          (if status update \<in> set [TOURNAMENT_STATUS_CANCELLED, TOURNAMENT_STATUS_DONE]
           then mergeUpdates rest feed
                  (result(i \<mapsto> zeroTournament\<lparr>tId := i, Status := status update,
                                               UpdatedAt := updated update\<rparr>))
           else mergeUpdates rest feed result)
      | Some tournament \<Rightarrow>
          mergeUpdates rest feed
            (result(i \<mapsto> tournament\<lparr>UpdatedAt := updated update, Status := status update\<rparr>)))"

definition FetchTournaments ::
  "failure + (int \<times> tournamentUpdate) list \<Rightarrow> failure + IcsEvent list \<Rightarrow> failure + (int \<rightharpoonup> Tournament)" where
  "FetchTournaments updates fetched =
     (case updates of
        Inl err \<Rightarrow> Inl err
      | Inr ups \<Rightarrow>
          (case fetched of
             Inl err \<Rightarrow> Inl err
           | Inr events \<Rightarrow>
               (case parseIcsEvents events of
                  Inl err \<Rightarrow> Inl err
                | Inr feed \<Rightarrow> Inr (mergeUpdates ups feed Map.empty))))"

section \<open>The detail extractor's dates (gto/gto.go)\<close>

text \<open>
  \<^verbatim>\<open>time.ParseInLocation\<close> for the two layouts of the package: \<^verbatim>\<open>"02.01.2006"\<close> and
  \<^verbatim>\<open>"02.01.2006 15:04"\<close>. Day, month and minute take two digits, the year four, the hour
  one or two; a blank of the layout stands for a run of blanks; nothing may follow.
\<close>

datatype layout = dateLayout | dateTimeLayout

fun getnum :: "string \<Rightarrow> bool \<Rightarrow> (int \<times> string) option" where
  "getnum [] fixed = None"
| "getnum [a] fixed = (if isDigit a \<and> \<not> fixed then Some (digitVal a, []) else None)"
| "getnum (a # b # rest) fixed =
     (if \<not> isDigit a then None
      else if \<not> isDigit b then (if fixed then None else Some (digitVal a, b # rest))
      else Some (digitVal a * 10 + digitVal b, rest))"

fun skipChar :: "char \<Rightarrow> string \<Rightarrow> string option" where
  "skipChar c [] = None"
| "skipChar c (v # value) = (if v = c then Some value else None)"

definition skipBlank :: "string \<Rightarrow> string option" where
  "skipBlank value =
     (if value \<noteq> [] \<and> hd value \<noteq> CHR '' '' then None
      else Some (dropWhile (\<lambda>c. c = CHR '' '') value))"

definition getYear :: "string \<Rightarrow> (int \<times> string) option" where
  "getYear value =
     (if length value < 4 \<or> \<not> list_all isDigit (take 4 value) then None
      else Some (digitsVal 0 (take 4 value), drop 4 value))"

definition parseDatePart :: "string \<Rightarrow> (int \<times> int \<times> int \<times> string) option" where
  "parseDatePart value =
     (case getnum value True of
        None \<Rightarrow> None
      | Some (day, v1) \<Rightarrow>
          (case skipChar CHR ''.'' v1 of
             None \<Rightarrow> None
           | Some v2 \<Rightarrow>
               (case getnum v2 True of
                  None \<Rightarrow> None
                | Some (month, v3) \<Rightarrow>
                    (if month \<le> 0 \<or> 12 < month then None
                     else (case skipChar CHR ''.'' v3 of
                             None \<Rightarrow> None
                           | Some v4 \<Rightarrow>
                               (case getYear v4 of
                                  None \<Rightarrow> None
                                | Some (year, v5) \<Rightarrow> Some (year, month, day, v5)))))))"

definition parseClockPart :: "string \<Rightarrow> (int \<times> int \<times> string) option" where
  "parseClockPart value =
     (case skipBlank value of
        None \<Rightarrow> None
      | Some v1 \<Rightarrow>
          (case getnum v1 False of
             None \<Rightarrow> None
           | Some (hour, v2) \<Rightarrow>
               (if hour < 0 \<or> 24 \<le> hour then None
                else (case skipChar CHR '':'' v2 of
                        None \<Rightarrow> None
                      | Some v3 \<Rightarrow>
                          (case getnum v3 True of
                             None \<Rightarrow> None
                           | Some (minute, v4) \<Rightarrow>
                               (if minute < 0 \<or> 60 \<le> minute then None
                                else Some (hour, minute, v4)))))))"

definition ParseInLocation :: "layout \<Rightarrow> string \<Rightarrow> Location \<Rightarrow> Time option" where
  "ParseInLocation lay value l =
     (case parseDatePart value of
        None \<Rightarrow> None
      | Some (year, month, day, v) \<Rightarrow>
          (case (case lay of dateLayout \<Rightarrow> Some (0, 0, v) | dateTimeLayout \<Rightarrow> parseClockPart v) of
             None \<Rightarrow> None
           | Some (hour, minute, v') \<Rightarrow>
               (if v' \<noteq> [] then None
                else if day < 1 \<or> daysIn month year < day then None
                else Some (Date year month day hour minute 0 0 l))))"

text \<open>
  \<^verbatim>\<open>parseDateRange\<close>; \<open>l\<close> is the location that \<^verbatim>\<open>time.LoadLocation("Europe/Berlin")\<close>
  returns. A nil result is \<open>None\<close>.
\<close>

definition parseDateRange :: "string \<Rightarrow> layout \<Rightarrow> Location \<Rightarrow> failure + (Time option \<times> Time option)" where
  "parseDateRange dateText lay l =
     (let parts = Split dateText CHR ''-''
      in if length parts = 0 then Inr (None, None)
         else (case ParseInLocation lay (TrimSpace (parts ! 0)) l of
                 None \<Rightarrow> Inl ParseStartError
               | Some startDate \<Rightarrow>
                   (if length parts = 2
                    then (case ParseInLocation lay (TrimSpace (parts ! 1)) l of
                            None \<Rightarrow> Inl ParseEndError
                          | Some d \<Rightarrow> Inr (Some startDate, Some d))
                    else Inr (Some startDate, None))))"

text \<open>The case \<^verbatim>\<open>"Turnierbetrieb"\<close> of \<^verbatim>\<open>parseEventPage\<close>, on the text of the value cell.\<close>

definition parseTurnierbetrieb :: "string \<Rightarrow> Location \<Rightarrow> EventDetails \<Rightarrow> EventDetails" where
  "parseTurnierbetrieb value l details =
     (case parseDateRange value dateLayout l of
        Inl err \<Rightarrow> details
      | Inr (None, endDate) \<Rightarrow> details
      | Inr (Some startDate, None) \<Rightarrow> details\<lparr>dStartDate := startDate, dEndDate := startDate\<rparr>
      | Inr (Some startDate, Some endDate) \<Rightarrow> details\<lparr>dStartDate := startDate, dEndDate := endDate\<rparr>)"

text \<open>One header of \<^verbatim>\<open>parseRegistrationPhases\<close>: a phase needs both bounds.\<close>

definition parseRegistrationPhase :: "string \<Rightarrow> string \<Rightarrow> Location \<Rightarrow> RegistrationPhase option" where
  "parseRegistrationPhase title dateText l =
     (case parseDateRange dateText dateTimeLayout l of
        Inl err \<Rightarrow> None
      | Inr (Some startDate, Some endDate) \<Rightarrow>
          Some \<lparr>pName = title, pStartDate = startDate, pEndDate = endDate\<rparr>
      | Inr other \<Rightarrow> None)"

text \<open>The values that are there, in order: the non-nil entries of a slice of pointers, or the
  entries of a map at the keys of a list.\<close>

fun nonNil :: "'a option list \<Rightarrow> 'a list" where
  "nonNil [] = []"
| "nonNil (None # ts) = nonNil ts"
| "nonNil (Some p # ts) = p # nonNil ts"

section \<open>Writing to the store (package db)\<close>

text \<open>
  \<^verbatim>\<open>INSERT INTO registrations ... ON CONFLICT(id, title) DO UPDATE\<close>: a row with the
  same tournament id and title is rewritten where it stands, otherwise the row is added.
  No statement of the package deletes a registration.
\<close>

definition upsertRegistrationRow :: "registration_row \<Rightarrow> registration_row list \<Rightarrow> registration_row list" where
  "upsertRegistrationRow new rows =
     (if \<exists>row \<in> set rows. reg_id row = reg_id new \<and> reg_title row = reg_title new
      then map (\<lambda>row. if reg_id row = reg_id new \<and> reg_title row = reg_title new then new else row) rows
      else rows @ [new])"

definition UpsertRegistration :: "(db_op \<Rightarrow> bool) \<Rightarrow> Repo \<Rightarrow> int \<Rightarrow> Registration \<Rightarrow> Repo \<times> failure option" where
  "UpsertRegistration fault r tournamentId registration =
     (if fault (OpUpsertRegistration tournamentId (rTitle registration)) then (r, Some DbError)
      else (r\<lparr>registrations_tbl :=
                upsertRegistrationRow
                  \<lparr>reg_id = tournamentId, reg_title = rTitle registration,
                   reg_start_date = rStartDate registration, reg_end_date = rEndDate registration\<rparr>
                  (registrations_tbl r)\<rparr>, None))"

fun upsertRegistrations :: "(db_op \<Rightarrow> bool) \<Rightarrow> Repo \<Rightarrow> int \<Rightarrow> Registration list \<Rightarrow> Repo \<times> failure option" where
  "upsertRegistrations fault r tournamentId [] = (r, None)"
| "upsertRegistrations fault r tournamentId (registration # rest) =
     (case UpsertRegistration fault r tournamentId registration of
        (r', Some err) \<Rightarrow> (r', Some err)
      | (r', None) \<Rightarrow> upsertRegistrations fault r' tournamentId rest)"

definition rowOfTournament :: "Tournament \<Rightarrow> tournament_row" where
  "rowOfTournament t =
     \<lparr>col_id = tId t, col_title = Title t, col_status = Status t, col_location = Localtion t,
      col_geo_location = GeoLocation t, col_updated_at = UpdatedAt t,
      col_start_date = StartDate t, col_end_date = EndDate t, col_series = Series t,
      col_pdga_tier = PdgaTier t, col_pdga_id = PdgaId t, col_drating = DRating t\<rparr>"

definition upsertTournamentRow :: "tournament_row \<Rightarrow> tournament_row list \<Rightarrow> tournament_row list" where
  "upsertTournamentRow new rows =
     (if \<exists>row \<in> set rows. col_id row = col_id new
      then map (\<lambda>row. if col_id row = col_id new then new else row) rows
      else rows @ [new])"

definition UpsertTournament :: "(db_op \<Rightarrow> bool) \<Rightarrow> Repo \<Rightarrow> Tournament \<Rightarrow> Repo \<times> failure option" where
  "UpsertTournament fault r tournament =
     (if fault (OpUpsertTournament (tId tournament)) then (r, Some DbError)
      else upsertRegistrations fault
             (r\<lparr>tournaments_tbl := upsertTournamentRow (rowOfTournament tournament) (tournaments_tbl r)\<rparr>)
             (tId tournament) (Registrations tournament))"

text \<open>
  \<^verbatim>\<open>CreateTurnamentHistory\<close>: a plain \<^verbatim>\<open>INSERT\<close> of the tournament id, the value of
  \<^verbatim>\<open>time.Now()\<close> (\<open>now\<close>), the tournament's \<^verbatim>\<open>UpdatedAt\<close> and the snapshot. The table
  is \<^verbatim>\<open>UNIQUE(tournament_id, date)\<close>, so the insert fails when a row of the id with
  the same value of \<open>date\<close> is there already. The snapshot, JSON in the store, is kept as the record.
\<close>

definition CreateTurnamentHistory :: "(db_op \<Rightarrow> bool) \<Rightarrow> Time \<Rightarrow> Repo \<Rightarrow> Tournament \<Rightarrow> Repo \<times> failure option" where
  "CreateTurnamentHistory fault now r tournament =
     (if fault (OpCreateTurnamentHistory (tId tournament)) \<or>
         (\<exists>row \<in> set (tournament_history r).
             h_tournament_id row = tId tournament \<and> h_date row = now)
      then (r, Some DbError)
      else (r\<lparr>tournament_history := tournament_history r @
                 [\<lparr>h_tournament_id = tId tournament, h_date = now,
                   h_updated_at = UpdatedAt tournament, h_snapshot = tournament\<rparr>]\<rparr>, None))"

text \<open>
  Reading back. A row gives a time as it was written, instant and location; the driver's
  text form of a time keeps the instant and the offset in force at it, not the zone table, so
  what is stated about times read back is stated about their instants.
\<close>

definition getRegistrations :: "Repo \<Rightarrow> int \<Rightarrow> Registration list" where
  "getRegistrations r tournamentId =
     map (\<lambda>row. \<lparr>rTitle = reg_title row, rStartDate = reg_start_date row, rEndDate = reg_end_date row\<rparr>)
       (filter (\<lambda>row. reg_id row = tournamentId) (registrations_tbl r))"

definition GetAllTournaments :: "(db_op \<Rightarrow> bool) \<Rightarrow> Repo \<Rightarrow> failure + Tournament list" where
  "GetAllTournaments fault r =
     (if fault OpGetAllTournaments then Inl DbError
      else Inr (map (\<lambda>row.
                  \<lparr>tId = col_id row, Status = col_status row, UpdatedAt = col_updated_at row,
                   StartDate = col_start_date row, EndDate = col_end_date row,
                   Title = col_title row, Localtion = col_location row,
                   GeoLocation = col_geo_location row, Series = col_series row,
                   PdgaTier = col_pdga_tier row, PdgaId = col_pdga_id row,
                   DRating = col_drating row,
                   Registrations = getRegistrations r (col_id row)\<rparr>)
                (tournaments_tbl r)))"

section \<open>The sync engine (TournamentService)\<close>

text \<open>
  \<^verbatim>\<open>init\<close> loads the stored tournaments; each gets an object of its own.
\<close>

fun loadAll :: "Tournament list \<Rightarrow> TournamentService \<Rightarrow> TournamentService" where
  "loadAll [] s = s"
| "loadAll (tt # t) s =
     loadAll t (s\<lparr>heap := (heap s)(nextPtr s := tt),
                 tournaments := (tournaments s)(tId tt \<mapsto> nextPtr s),
                 nextPtr := Suc (nextPtr s)\<rparr>)"

definition emptyService :: TournamentService where
  "emptyService = \<lparr>tournaments = Map.empty, heap = (\<lambda>p. zeroTournament), nextPtr = 0, lastSync = None\<rparr>"

definition NewTournamentService :: "(db_op \<Rightarrow> bool) \<Rightarrow> Repo \<Rightarrow> TournamentService \<times> failure option" where
  "NewTournamentService fault r =
     (case GetAllTournaments fault r of
        Inl err \<Rightarrow> (emptyService, Some err)
      | Inr t \<Rightarrow> (loadAll t emptyService, None))"

text \<open>
  What a cycle gets from outside: the result of \<^verbatim>\<open>FetchTournaments\<close> and the order in
  which the range visits its keys, the result of \<^verbatim>\<open>FetchEventDetails\<close> for each id,
  the faults of the store, the value of \<^verbatim>\<open>time.Now()\<close> when the snapshot of an id is
  written, and its value at the end of the cycle.
\<close>

record SyncEnv =
  fetchResult :: "failure + (int \<rightharpoonup> Tournament)"
  rangeOrder :: "int list"
  detailsOf :: "int \<Rightarrow> failure + EventDetails"
  dbFault :: "db_op \<Rightarrow> bool"
  historyNow :: "int \<Rightarrow> Time"
  syncDoneAt :: Time

definition rangeValues :: "(int \<rightharpoonup> Tournament) \<Rightarrow> int list \<Rightarrow> Tournament list" where
  "rangeValues m order = nonNil (map m order)"

text \<open>
  The loop over \<^verbatim>\<open>details.RegistrationPhases\<close>. \<open>p\<close> is the pointer
  \<^verbatim>\<open>fetchedTournament\<close>, which the map holds by now: the append is seen through the map.
  The error of \<^verbatim>\<open>UpsertRegistration\<close> is dropped.
\<close>

fun syncPhases ::
  "(db_op \<Rightarrow> bool) \<Rightarrow> RegistrationPhase list \<Rightarrow> ptr \<Rightarrow> TournamentService \<times> Repo \<Rightarrow> TournamentService \<times> Repo" where
  "syncPhases fault [] p (s, r) = (s, r)"
| "syncPhases fault (ph # phases) p (s, r) =
     (let reg = \<lparr>rTitle = pName ph, rStartDate = pStartDate ph, rEndDate = pEndDate ph\<rparr>;
          r' = fst (UpsertRegistration fault r (tId (heap s p)) reg);
          s' = s\<lparr>heap := (heap s)(p := (heap s p)\<lparr>Registrations := Registrations (heap s p) @ [reg]\<rparr>)\<rparr>
      in syncPhases fault phases p (s', r'))"

text \<open>
  The body of the loop of \<^verbatim>\<open>Sync\<close> for one fetched tournament. The object that
  \<^verbatim>\<open>FetchTournaments\<close> made for it is new in every cycle; it gets its address, the next
  free one, when the cycle first writes to it: \<open>applyDetails\<close> is the block of assignments
  from the details. The error of \<^verbatim>\<open>UpsertTournament\<close> is dropped. The result is the state left behind and the error returned, if any.
\<close>

definition applyDetails :: "Tournament \<Rightarrow> EventDetails \<Rightarrow> Tournament" where
  "applyDetails fetchedTournament details =
     fetchedTournament
       \<lparr>Title := dTitle details, Series := dSeries details,
        PdgaTier := dPDGATier details, PdgaId := dPDGAId details,
        DRating := dDRatingConsideration details,
        Localtion := dLocation details, GeoLocation := dGeoLocation details,
        StartDate := dStartDate details, EndDate := dEndDate details\<rparr>"

definition syncTournament ::
  "SyncEnv \<Rightarrow> TournamentService \<times> Repo \<Rightarrow> Tournament \<Rightarrow> (TournamentService \<times> Repo) \<times> failure option" where
  "syncTournament env sr fetchedTournament =
     (let (s, r) = sr;
          storedTournament = tournaments s (tId fetchedTournament)
      in if (case storedTournament of
               None \<Rightarrow> True
             | Some q \<Rightarrow> Before (UpdatedAt (heap s q)) (UpdatedAt fetchedTournament))
         then
           (case detailsOf env (tId fetchedTournament) of
              Inl err \<Rightarrow> ((s, r), Some err)
            | Inr details \<Rightarrow>
                (let p = nextPtr s;
                     s1 = s\<lparr>heap := (heap s)(p := applyDetails fetchedTournament details),
                            nextPtr := Suc p,
                            tournaments := (tournaments s)(tId fetchedTournament \<mapsto> p)\<rparr>;
                     r1 = fst (UpsertTournament (dbFault env) r (heap s1 p));
                     (s2, r2) = syncPhases (dbFault env) (dRegistrationPhases details) p (s1, r1)
                 in (case CreateTurnamentHistory (dbFault env) (historyNow env (tId (heap s2 p))) r2
                            (heap s2 p) of
                       (r3, Some err) \<Rightarrow> ((s2, r3), Some err)
                     | (r3, None) \<Rightarrow> ((s2, r3), None))))
         else ((s, r), None))"

fun syncLoop ::
  "SyncEnv \<Rightarrow> Tournament list \<Rightarrow> TournamentService \<times> Repo \<Rightarrow> (TournamentService \<times> Repo) \<times> failure option" where
  "syncLoop env [] sr = (sr, None)"
| "syncLoop env (fetchedTournament # rest) sr =
     (case syncTournament env sr fetchedTournament of
        (sr', Some err) \<Rightarrow> (sr', Some err)
      | (sr', None) \<Rightarrow> syncLoop env rest sr')"

definition Sync :: "SyncEnv \<Rightarrow> TournamentService \<times> Repo \<Rightarrow> (TournamentService \<times> Repo) \<times> failure option" where
  "Sync env sr =
     (case fetchResult env of
        Inl err \<Rightarrow> (sr, Some err)
      | Inr gtoTournaments \<Rightarrow>
          (case syncLoop env (rangeValues gtoTournaments (rangeOrder env)) sr of
             (sr', Some err) \<Rightarrow> (sr', Some err)
           | ((s', r'), None) \<Rightarrow> ((s'\<lparr>lastSync := Some (syncDoneAt env)\<rparr>, r'), None)))"

text \<open>
  The scheduler calls \<^verbatim>\<open>Sync\<close> once per tick and drops its error: the cycles of a run,
  one after the other.
\<close>

fun scheduler :: "SyncEnv list \<Rightarrow> TournamentService \<times> Repo \<Rightarrow> TournamentService \<times> Repo" where
  "scheduler [] sr = sr"
| "scheduler (env # envs) sr = scheduler envs (fst (Sync env sr))"

section \<open>Notions used to state the properties\<close>

text \<open>
  Every tournament of the in-memory map is stored under its own id: \<^verbatim>\<open>init\<close> and
  \<^verbatim>\<open>Sync\<close> only ever write \<^verbatim>\<open>s.tournaments[t.Id] = t\<close>.
\<close>

definition keyedById :: "TournamentService \<Rightarrow> bool" where
  "keyedById s = (\<forall>k p. tournaments s k = Some p \<longrightarrow> tId (heap s p) = k)"


text \<open>
  A wall-clock reading \<open>w\<close> (seconds, counted like Unix time) is steady in a location when the
  zone interval found at \<open>w\<close> taken as an instant is also the one in force at the instant that
  shows \<open>w\<close>: no transition of the zone lies between the two. Every reading is steady in a
  zone without transitions.
\<close>

definition steady :: "Location \<Rightarrow> int \<Rightarrow> bool" where
  "steady l w = (lookup l (w - zoneOffset l w) = lookup l w)"

text \<open>
  The record behind the pointer that \<^verbatim>\<open>GetTournament\<close> returns, and the rows that the
  store holds for a tournament id.
\<close>

definition stored :: "TournamentService \<Rightarrow> int \<Rightarrow> Tournament option" where
  "stored s i = map_option (heap s) (tournaments s i)"

definition rowsOf :: "Repo \<Rightarrow> int \<Rightarrow> tournament_row list \<times> registration_row list \<times> history_row list" where
  "rowsOf r i =
     (filter (\<lambda>row. col_id row = i) (tournaments_tbl r),
      filter (\<lambda>row. reg_id row = i) (registrations_tbl r),
      filter (\<lambda>row. h_tournament_id row = i) (tournament_history r))"

text \<open>Every pointer of the map has been allocated.\<close>

definition allocated :: "TournamentService \<Rightarrow> bool" where
  "allocated s = (\<forall>k p. tournaments s k = Some p \<longrightarrow> p < nextPtr s)"

text \<open>
  The test of \<^verbatim>\<open>Sync\<close>: a fetched tournament is changed when its id is not stored or the
  stored \<^verbatim>\<open>UpdatedAt\<close> is before the fetched one.
\<close>

definition changed :: "TournamentService \<Rightarrow> Tournament \<Rightarrow> bool" where
  "changed s fetchedTournament =
     (case stored s (tId fetchedTournament) of
        None \<Rightarrow> True
      | Some t \<Rightarrow> Before (UpdatedAt t) (UpdatedAt fetchedTournament))"

definition registrationOf :: "RegistrationPhase \<Rightarrow> Registration" where
  "registrationOf ph = \<lparr>rTitle = pName ph, rStartDate = pStartDate ph, rEndDate = pEndDate ph\<rparr>"

definition rowOfPhase :: "int \<Rightarrow> RegistrationPhase \<Rightarrow> registration_row" where
  "rowOfPhase i ph =
     \<lparr>reg_id = i, reg_title = pName ph, reg_start_date = pStartDate ph, reg_end_date = pEndDate ph\<rparr>"

definition historyKeys :: "Repo \<Rightarrow> (int \<times> Time) list" where
  "historyKeys r = map (\<lambda>row. (h_tournament_id row, h_date row)) (tournament_history r)"

definition registrationKeys :: "Repo \<Rightarrow> (int \<times> string) list" where
  "registrationKeys r = map (\<lambda>row. (reg_id row, reg_title row)) (registrations_tbl r)"

text \<open>A write for tournament \<open>k\<close> leaves the calendars and the rows of every other id as they are.\<close>

definition sameElsewhere :: "int \<Rightarrow> Repo \<Rightarrow> Repo \<Rightarrow> bool" where
  "sameElsewhere k r r' =
     (calendars_tbl r' = calendars_tbl r \<and> (\<forall>i. i \<noteq> k \<longrightarrow> rowsOf r' i = rowsOf r i))"

text \<open>The registrations table after the upserts of a list of phases of tournament \<open>i\<close>, one by one.\<close>

definition upsertPhases :: "int \<Rightarrow> RegistrationPhase list \<Rightarrow> registration_row list \<Rightarrow> registration_row list" where
  "upsertPhases i phases rows = foldl (\<lambda>rows ph. upsertRegistrationRow (rowOfPhase i ph) rows) rows phases"

text \<open>
  The store is not ahead of the map: every stored row of a tournament has its tournament in
  the map, with a time of change that is not before the row's.
\<close>

definition storeBehind :: "TournamentService \<Rightarrow> Repo \<Rightarrow> bool" where
  "storeBehind s r =
     (\<forall>row \<in> set (tournaments_tbl r).
        \<exists>t. stored s (col_id row) = Some t \<and>
            unixNano (col_updated_at row) \<le> unixNano (UpdatedAt t))"

section \<open>Example data\<close>

definition exTime :: "int \<Rightarrow> Time" where
  "exTime n = \<lparr>unixNano = n, loc = UTC\<rparr>"

definition exTournament :: "int \<Rightarrow> string list \<Rightarrow> Registration list \<Rightarrow> Tournament" where
  "exTournament i series regs =
     zeroTournament\<lparr>tId := i, Status := TOURNAMENT_STATUS_ANNOUNCED, UpdatedAt := exTime 100,
       Series := series, Registrations := regs\<rparr>"

definition exRegistration :: Registration where
  "exRegistration = \<lparr>rTitle = ''Phase 1'', rStartDate = exTime 50, rEndDate = exTime 60\<rparr>"

definition exService :: TournamentService where
  "exService =
     \<lparr>tournaments = [7 \<mapsto> 0, 9 \<mapsto> 1],
      heap = (\<lambda>_. zeroTournament)(0 := exTournament 7 [''B''] [exRegistration],
                                     1 := exTournament 9 [''A''] []),
      nextPtr = 2,
      lastSync = None\<rparr>"

text \<open>
  The same service with a third tournament, 5 of series C, that the example filter (series A,
  ids 7 and 8) does not select.
\<close>

definition exCatalog :: TournamentService where
  "exCatalog =
     exService\<lparr>tournaments := (tournaments exService)(5 \<mapsto> 2),
       heap := (heap exService)(2 := exTournament 5 [''C''] []),
       nextPtr := 3\<rparr>"

definition exHistoryRow :: "int \<Rightarrow> int \<Rightarrow> history_row" where
  "exHistoryRow i n =
     \<lparr>h_tournament_id = i, h_date = exTime n, h_updated_at = exTime n,
      h_snapshot = exTournament i [] []\<rparr>"

definition exCalendarRow :: calendar_row where
  "exCalendarRow =
     \<lparr>cal_id = ''abc'', cal_edit_id = ''secret'', cal_title = ''My feed'', cal_email = [],
      cal_created_at = exTime 1, cal_updated_at = exTime 1,
      cal_subscription_config = Some \<lparr>cfgTournaments = [7, 8], cfgSeries = [''A'']\<rparr>,
      cal_retrieved_at = None\<rparr>"

definition exRepo :: Repo where
  "exRepo =
     \<lparr>tournaments_tbl = [], registrations_tbl = [], calendars_tbl = [exCalendarRow],
      tournament_history = [exHistoryRow 7 10, exHistoryRow 9 11, exHistoryRow 7 12]\<rparr>"

definition noFault :: "db_op \<Rightarrow> bool" where
  "noFault op = False"

text \<open>
  The zone table of Berlin cut down to the year 2024: one hour ahead of UTC, and two hours
  from 2024-03-31 01:00 UTC to 2024-10-27 01:00 UTC. It gives the offsets of Europe/Berlin
  between the clock changes of 2023-10-29 and 2025-03-30; the examples stay within 2024.
\<close>

definition Berlin :: Location where
  "Berlin = \<lparr>offset0 = 3600, zoneTrans = [(1711846800, 7200), (1729990800, 3600)]\<rparr>"

definition exIcsEvent :: "string \<Rightarrow> IcsEvent" where
  "exIcsEvent uid =
     \<lparr>ieId = uid,
      ieStartAt = Inr (Date 2024 6 1 0 0 0 0 Berlin),
      ieEndAt = Inr (Date 2024 6 3 0 0 0 0 Berlin),
      ieSummary = Some ''Open''\<rparr>"

definition exUpdates :: "(int \<times> tournamentUpdate) list" where
  "exUpdates =
     [(1, \<lparr>updated = exTime 500, status = TOURNAMENT_STATUS_ANNOUNCED\<rparr>),
      (2, \<lparr>updated = exTime 600, status = TOURNAMENT_STATUS_CANCELLED\<rparr>),
      (3, \<lparr>updated = exTime 700, status = TOURNAMENT_STATUS_ANNOUNCED\<rparr>)]"


text \<open>
  An event that spans the change to summer time of 2024-03-31 in Berlin: it starts on
  2024-03-30 at 00:00 and its end, 48 hours later, reads 2024-04-01 01:00.
\<close>

definition exDstEnd :: Time where
  "exDstEnd = Date 2024 4 1 1 0 0 0 Berlin"

definition exDstEvent :: IcsEvent where
  "exDstEvent =
     \<lparr>ieId = ''tournament-5@turniere.discgolf.de'',
      ieStartAt = Inr (Date 2024 3 30 0 0 0 0 Berlin),
      ieEndAt = Inr exDstEnd,
      ieSummary = None\<rparr>"

text \<open>
  The zone table of Sao Paulo for the summer of 2018/19: standard time is three hours
  behind UTC; on 2018-11-04 the clocks went from 00:00 to 01:00 (at 03:00 UTC) and on
  2019-02-17 from 00:00 back to 23:00 (at 02:00 UTC). The example event ends at 2018-11-05
  00:00 of that zone, the day after the day that has no midnight.
\<close>

definition SaoPaulo :: Location where
  "SaoPaulo = \<lparr>offset0 = - 10800, zoneTrans = [(1541300400, - 7200), (1550368800, - 10800)]\<rparr>"

definition exGapEnd :: Time where
  "exGapEnd = Date 2018 11 5 0 0 0 0 SaoPaulo"

definition exGapEvent :: IcsEvent where
  "exGapEvent =
     \<lparr>ieId = ''tournament-6@turniere.discgolf.de'',
      ieStartAt = Inr (Date 2018 11 3 0 0 0 0 SaoPaulo),
      ieEndAt = Inr exGapEnd,
      ieSummary = Some ''Open''\<rparr>"

text \<open>
  Two cycles on 1970-01-01, at 12:00 and at 13:00. The listing gives tournament 1 the time of
  change 100 in the first and 200 in the second; the detail page shows the phase Early in the
  first and the phase Late in the second.
\<close>

definition exDetails :: "string \<Rightarrow> EventDetails" where
  "exDetails phase =
     \<lparr>dID = 1, dTitle = ''Open'', dStartDate = exTime 0, dEndDate = exTime 0,
      dLocation = ''Berlin'', dGeoLocation = [], dSeries = [''A''], dPDGATier = [],
      dPDGAId = [], dDRatingConsideration = False,
      dRegistrationPhases = [\<lparr>pName = phase, pStartDate = exTime 10, pEndDate = exTime 20\<rparr>]\<rparr>"

definition exFetched :: "int \<Rightarrow> Tournament" where
  "exFetched lastChange =
     zeroTournament\<lparr>tId := 1, Status := TOURNAMENT_STATUS_ANNOUNCED, UpdatedAt := exTime lastChange\<rparr>"

definition exSyncEnv :: "int \<Rightarrow> string \<Rightarrow> int \<Rightarrow> SyncEnv" where
  "exSyncEnv lastChange phase hour =
     \<lparr>fetchResult = Inr [1 \<mapsto> exFetched lastChange],
      rangeOrder = [1],
      detailsOf = (\<lambda>i. Inr (exDetails phase)),
      dbFault = noFault,
      historyNow = (\<lambda>i. exTime (hour * 3600 * 1000000000)),
      syncDoneAt = exTime (hour * 3600 * 1000000000 + 1)\<rparr>"

definition emptyRepo :: Repo where
  "emptyRepo = \<lparr>tournaments_tbl = [], registrations_tbl = [], calendars_tbl = [], tournament_history = []\<rparr>"

definition exAfterFirst :: "TournamentService \<times> Repo" where
  "exAfterFirst = scheduler [exSyncEnv 100 ''Early'' 12] (emptyService, emptyRepo)"

definition exTwoCycles :: "TournamentService \<times> Repo" where
  "exTwoCycles = scheduler [exSyncEnv 100 ''Early'' 12, exSyncEnv 200 ''Late'' 13] (emptyService, emptyRepo)"

section \<open>Properties of feed generation\<close>

subsection \<open>The revision counter\<close>

lemma scanRows_lookup:
  "distinct (map fst rows) \<Longrightarrow>
   scanRows rows m k = (case map_of rows k of None \<Rightarrow> m k | Some v \<Rightarrow> Some v)"
proof (induction rows arbitrary: m)
  case Nil
  then show ?case by simp
next
  case (Cons row rows)
  obtain i c where row: "row = (i, c)" by (cases row)
  from Cons.prems row have notin: "i \<notin> fst ` set rows" and d: "distinct (map fst rows)"
    by auto
  from notin have none: "map_of rows i = None"
    by (simp add: map_of_eq_None_iff)
  have step: "scanRows (row # rows) m k = scanRows rows (m(i \<mapsto> c)) k"
    by (simp add: row)
  have ih: "scanRows rows (m(i \<mapsto> c)) k =
      (case map_of rows k of None \<Rightarrow> (m(i \<mapsto> c)) k | Some v \<Rightarrow> Some v)"
    by (rule Cons.IH [OF d])
  show ?case
  proof (cases "k = i")
    case True
    then show ?thesis unfolding step ih by (simp add: none row)
  next
    case False
    then show ?thesis unfolding step ih by (simp add: row split: option.splits)
  qed
qed

lemma map_of_selectCountGroupBy:
  "map_of (selectCountGroupBy h) k =
     (if k \<in> h_tournament_id ` set h then Some (countSnapshots h k) else None)"
  unfolding selectCountGroupBy_def
  by (induction "remdups (map h_tournament_id h)") (auto simp: map_of_map_restrict restrict_map_def)

lemma countSnapshots_absent:
  "k \<notin> h_tournament_id ` set h \<Longrightarrow> countSnapshots h k = 0"
  unfolding countSnapshots_def by (induction h) auto

lemma distinct_selectCountGroupBy: "distinct (map fst (selectCountGroupBy h))"
  unfolding selectCountGroupBy_def by (simp add: comp_def)

lemma GetCalendarUpdateCount_counts:
  assumes "GetCalendarUpdateCount fault r = Inr uc"
  shows "mapIndex uc k = countSnapshots (tournament_history r) k"
proof -
  from assms have uc: "uc = scanRows (selectCountGroupBy (tournament_history r)) Map.empty"
    unfolding GetCalendarUpdateCount_def by (auto split: if_splits)
  show ?thesis
    unfolding uc mapIndex_def
    by (simp add: scanRows_lookup [OF distinct_selectCountGroupBy] map_of_selectCountGroupBy
        countSnapshots_absent)
qed

lemma registrationEvents_member:
  "e \<in> set (registrationEvents uc t i regs) \<Longrightarrow>
   \<exists>n. i \<le> n \<and> n < i + length regs \<and> e = registrationEvent uc t n (regs ! (n - i))"
proof (induction regs arbitrary: i)
  case Nil
  then show ?case by simp
next
  case (Cons reg regs)
  from Cons.prems consider "e = registrationEvent uc t i reg"
    | "e \<in> set (registrationEvents uc t (Suc i) regs)" by auto
  then show ?case
  proof cases
    case 1
    then show ?thesis by (intro exI [of _ i]) simp
  next
    case 2
    from Cons.IH [OF 2] obtain n where n: "Suc i \<le> n" "n < Suc i + length regs"
      "e = registrationEvent uc t n (regs ! (n - Suc i))" by blast
    then show ?thesis
      by (intro exI [of _ n]) (auto simp: nth_Cons' Suc_diff_le)
  qed
qed

lemma addEvents_member:
  "e \<in> set (addEvents s uc ts) \<Longrightarrow>
   \<exists>p. Some p \<in> set ts \<and>
     (e = tournamentEvent uc (heap s p) \<or>
      (\<exists>n < length (Registrations (heap s p)).
          e = registrationEvent uc (heap s p) n (Registrations (heap s p) ! n)))"
proof (induction s uc ts rule: addEvents.induct)
  case (1 s uc)
  then show ?case by simp
next
  case (2 s uc ts)
  then show ?case by auto
next
  case (3 s uc p ts)
  from "3.prems" consider "e = tournamentEvent uc (heap s p)"
    | "e \<in> set (registrationEvents uc (heap s p) 0 (Registrations (heap s p)))"
    | "e \<in> set (addEvents s uc ts)" by auto
  then show ?case
  proof cases
    case 1
    then show ?thesis by auto
  next
    case 2
    from registrationEvents_member [OF 2] show ?thesis by auto
  next
    case 3
    from "3.IH" [OF 3] show ?thesis by auto
  qed
qed

lemma CreateIcs_success:
  assumes "CreateIcs fault now order s r i = (r', Inr cal)"
  obtains calendar uc where
    "GetCalendar fault r (CalendarId i) = Inr (Some calendar)"
    "GetUpdateCount fault r = Inr uc"
    "icsEvents cal = addEvents s uc (resolveTournaments s order (Config calendar))"
    "icsName cal = cTitle calendar"
    "r' = fst (SetCalendarRetrievedAt fault now r (cId calendar))"
  using assms unfolding CreateIcs_def
  by (auto split: sum.splits option.splits simp: Let_def)

text \<open>
  Claim C1. In every export that \<^verbatim>\<open>CreateIcs\<close> returns, every event belongs to a resolved
  tournament, and its revision number (SEQUENCE) is the number of history snapshots that the
  store holds for that tournament's id when the export is made. This holds for the tournament's
  own event and for the events of its registration phases alike.
\<close>

theorem CreateIcs_sequence_is_snapshot_count:
  assumes "CreateIcs fault now order s r i = (r', Inr cal)"
    and "e \<in> set (icsEvents cal)"
  shows "\<exists>calendar p.
           GetCalendar fault r (CalendarId i) = Inr (Some calendar) \<and>
           Some p \<in> set (resolveTournaments s order (Config calendar)) \<and>
           evSequence e = countSnapshots (tournament_history r) (tId (heap s p)) \<and>
           (evUid e = tournamentUid (tId (heap s p)) \<or>
            (\<exists>n < length (Registrations (heap s p)).
                evUid e = registrationUid (tId (heap s p)) n))"
proof -
  from assms(1) obtain calendar uc where
    cal: "GetCalendar fault r (CalendarId i) = Inr (Some calendar)"
    and uc: "GetUpdateCount fault r = Inr uc"
    and ev: "icsEvents cal = addEvents s uc (resolveTournaments s order (Config calendar))"
    by (rule CreateIcs_success)
  from uc have cnt: "\<And>k. mapIndex uc k = countSnapshots (tournament_history r) k"
    unfolding GetUpdateCount_def by (rule GetCalendarUpdateCount_counts)
  from assms(2) ev obtain p where p: "Some p \<in> set (resolveTournaments s order (Config calendar))"
    and e: "e = tournamentEvent uc (heap s p) \<or>
      (\<exists>n < length (Registrations (heap s p)).
          e = registrationEvent uc (heap s p) n (Registrations (heap s p) ! n))"
    using addEvents_member by metis
  from e have "evSequence e = countSnapshots (tournament_history r) (tId (heap s p))"
    by (auto simp: tournamentEvent_def registrationEvent_def cnt)
  moreover from e have "evUid e = tournamentUid (tId (heap s p)) \<or>
            (\<exists>n < length (Registrations (heap s p)).
                evUid e = registrationUid (tId (heap s p)) n)"
    by (auto simp: tournamentEvent_def registrationEvent_def)
  ultimately show ?thesis using cal p by blast
qed

lemma ex_CreateIcs_succeeds:
  "\<not> isl (snd (CreateIcs noFault (exTime 200) [9, 7] exService exRepo ''abc''))"
  by code_simp

lemma ex_CreateIcs_length:
  "2 < length (icsEvents (projr (snd (CreateIcs noFault (exTime 200) [9, 7] exService exRepo ''abc''))))"
  by code_simp

lemma ex_CreateIcs_sequences:
  "evSequence (icsEvents (projr (snd (CreateIcs noFault (exTime 200) [9, 7] exService exRepo ''abc''))) ! 2) = 2"
  by code_simp

text \<open>
  The example store holds two snapshots of tournament 7 and one of tournament 9; the third
  event of the example export is the registration event of tournament 7.
\<close>

theorem CreateIcs_sequence_is_snapshot_count_witness:
  "CreateIcs noFault (exTime 200) [9, 7] exService exRepo ''abc'' =
     (fst (CreateIcs noFault (exTime 200) [9, 7] exService exRepo ''abc''),
      Inr (projr (snd (CreateIcs noFault (exTime 200) [9, 7] exService exRepo ''abc'')))) \<and>
   icsEvents (projr (snd (CreateIcs noFault (exTime 200) [9, 7] exService exRepo ''abc''))) ! 2
     \<in> set (icsEvents (projr (snd (CreateIcs noFault (exTime 200) [9, 7] exService exRepo ''abc'')))) \<and>
   evSequence (icsEvents (projr (snd (CreateIcs noFault (exTime 200) [9, 7] exService exRepo ''abc''))) ! 2) = 2 \<and>
   (\<exists>calendar p.
      GetCalendar noFault exRepo (CalendarId ''abc'') = Inr (Some calendar) \<and>
      Some p \<in> set (resolveTournaments exService [9, 7] (Config calendar)) \<and>
      evSequence (icsEvents (projr (snd (CreateIcs noFault (exTime 200) [9, 7] exService exRepo ''abc''))) ! 2)
        = countSnapshots (tournament_history exRepo) (tId (heap exService p)) \<and>
      (evUid (icsEvents (projr (snd (CreateIcs noFault (exTime 200) [9, 7] exService exRepo ''abc''))) ! 2)
         = tournamentUid (tId (heap exService p)) \<or>
       (\<exists>n < length (Registrations (heap exService p)).
          evUid (icsEvents (projr (snd (CreateIcs noFault (exTime 200) [9, 7] exService exRepo ''abc''))) ! 2)
            = registrationUid (tId (heap exService p)) n)))"
proof -
  let ?res = "CreateIcs noFault (exTime 200) [9, 7] exService exRepo ''abc''"
  let ?cal = "projr (snd ?res)"
  have h1: "?res = (fst ?res, Inr ?cal)"
    using ex_CreateIcs_succeeds by (cases ?res) (auto simp: isl_def)
  have h2: "icsEvents ?cal ! 2 \<in> set (icsEvents ?cal)"
    by (rule nth_mem) (rule ex_CreateIcs_length)
  have h3: "evSequence (icsEvents ?cal ! 2) = 2"
    by (rule ex_CreateIcs_sequences)
  from CreateIcs_sequence_is_snapshot_count [OF h1 h2] h1 h2 h3 show ?thesis
    by blast
qed

subsection \<open>Unknown calendar ids\<close>

text \<open>
  Claim C7. \<^verbatim>\<open>CreateIcs\<close> fails with \<open>NotFoundError\<close> exactly when the lookup of the
  calendar id went through and found no stored calendar: a failed lookup gives another error,
  an id that resolves never gives \<open>NotFoundError\<close>. \<^verbatim>\<open>IcsHandler\<close> answers
  404 "Not found" exactly when \<^verbatim>\<open>CreateIcs\<close> failed with \<open>NotFoundError\<close>.
\<close>

theorem CreateIcs_NotFound_iff:
  "(snd (CreateIcs fault now order s r i) = Inl NotFoundError \<longleftrightarrow>
      (\<not> fault (OpGetCalendar i) \<and> i \<notin> cal_id ` set (calendars_tbl r))) \<and>
   (snd (IcsHandler fault now order s r i) = (404, ErrorText ''Not found'') \<longleftrightarrow>
      snd (CreateIcs fault now order s r i) = Inl NotFoundError)"
proof
  show "snd (CreateIcs fault now order s r i) = Inl NotFoundError \<longleftrightarrow>
      (\<not> fault (OpGetCalendar i) \<and> i \<notin> cal_id ` set (calendars_tbl r))"
    unfolding CreateIcs_def GetUpdateCount_def GetCalendarUpdateCount_def
    by (auto simp: GetCalendarById_def Let_def find_None_iff find_Some_iff
        split: sum.splits option.splits if_splits)
next
  show "snd (IcsHandler fault now order s r i) = (404, ErrorText ''Not found'') \<longleftrightarrow>
      snd (CreateIcs fault now order s r i) = Inl NotFoundError"
    unfolding IcsHandler_def
    by (cases "CreateIcs fault now order s r i") (auto split: sum.splits option.splits)
qed

subsection \<open>Resolving the subscriber filter\<close>

lemma set_getTournaments:
  "set (getTournaments s order flt) =
     {p. \<exists>k \<in> set order. tournaments s k = Some p \<and> flt (heap s p)}"
  by (induction order) (auto split: option.splits)

lemma distinct_getTournaments:
  assumes "keyedById s"
  shows "distinct order \<Longrightarrow> distinct (getTournaments s order flt)"
proof (induction order)
  case Nil
  then show ?case by simp
next
  case (Cons k order)
  have "p \<notin> set (getTournaments s order flt)" if "tournaments s k = Some p" for p
  proof
    assume "p \<in> set (getTournaments s order flt)"
    then obtain k' where k': "k' \<in> set order" "tournaments s k' = Some p"
      by (auto simp: set_getTournaments)
    with that assms have "k' = k" unfolding keyedById_def by metis
    with k' Cons.prems show False by simp
  qed
  with Cons show ?case by (auto split: option.splits)
qed

lemma set_appendListed:
  "set (appendListed s tids ts) = set ts \<union> GetTournament s ` set tids"
  by (induction tids arbitrary: ts) (auto simp: Let_def)

lemma distinct_appendListed:
  "distinct ts \<Longrightarrow> distinct (appendListed s tids ts)"
  by (induction tids arbitrary: ts) (auto simp: Let_def)

lemma set_nonNil: "set (nonNil ts) = {p. Some p \<in> set ts}"
  by (induction ts rule: nonNil.induct) auto

lemma distinct_nonNil: "distinct ts \<Longrightarrow> distinct (nonNil ts)"
  by (induction ts rule: nonNil.induct) (auto simp: set_nonNil)

lemma registrationEvents_not_allDay:
  "filter evAllDayFlag (registrationEvents uc t i regs) = []"
  by (induction regs arbitrary: i) (auto simp: registrationEvent_def)

lemma addEvents_tournament_events:
  "filter evAllDayFlag (addEvents s uc ts) = map (\<lambda>p. tournamentEvent uc (heap s p)) (nonNil ts)"
  by (induction ts rule: nonNil.induct)
    (auto simp: registrationEvents_not_allDay tournamentEvent_def)

lemma distinct_resolved_ids:
  assumes "keyedById s" "distinct ps" "\<forall>p \<in> set ps. \<exists>k. tournaments s k = Some p"
  shows "distinct (map (\<lambda>p. tId (heap s p)) ps)"
proof -
  have "inj_on (\<lambda>p. tId (heap s p)) (set ps)"
  proof (rule inj_onI)
    fix p q assume p: "p \<in> set ps" and q: "q \<in> set ps"
      and eq: "tId (heap s p) = tId (heap s q)"
    from p q assms(3) obtain k k' where kk: "tournaments s k = Some p" "tournaments s k' = Some q"
      by blast
    with assms(1) have "tId (heap s p) = k" "tId (heap s q) = k'"
      unfolding keyedById_def by auto
    with eq kk show "p = q" by simp
  qed
  with assms(2) show ?thesis by (simp add: distinct_map)
qed

text \<open>
  The filter of \<^verbatim>\<open>GetTournamentsForSeries\<close> holds of a tournament exactly when one of its
  series is a series of the subscriber's filter.
\<close>

lemma seriesFilter_iff: "seriesFilter series xs \<longleftrightarrow> set xs \<inter> set series \<noteq> {}"
  by (induction xs) auto

text \<open>
  Claim C6. When the calendar is found and the revision counts are read, \<^verbatim>\<open>CreateIcs\<close>
  succeeds whatever ids the filter lists, and the tournament events of the export are the
  events of a list \<open>ps\<close> of stored tournaments in which no tournament id occurs twice and
  which holds exactly the stored tournaments that have a series of the filter or whose id the
  filter lists. An id of the filter that is not stored adds nothing, and a stored tournament
  that has no series of the filter and whose id is not listed is left out.
\<close>

theorem CreateIcs_resolves_union:
  assumes cal: "GetCalendar fault r (CalendarId i) = Inr (Some calendar)"
    and uc: "GetUpdateCount fault r = Inr uc"
    and keyed: "keyedById s"
    and order: "distinct order" "set order = dom (tournaments s)"
  shows "\<exists>r' ics ps.
           CreateIcs fault now order s r i = (r', Inr ics) \<and>
           filter evAllDayFlag (icsEvents ics) = map (\<lambda>p. tournamentEvent uc (heap s p)) ps \<and>
           distinct (map (\<lambda>p. tId (heap s p)) ps) \<and>
           set ps = {p. \<exists>k. tournaments s k = Some p \<and>
                         (set (Series (heap s p)) \<inter> set (cfgSeries (Config calendar)) \<noteq> {} \<or>
                          k \<in> set (cfgTournaments (Config calendar)))}"
proof -
  let ?ts = "resolveTournaments s order (Config calendar)"
  let ?ps = "nonNil ?ts"
  let ?ics = "\<lparr>icsProductId = ''dg-cal v0.1'', icsMethod = ''PUBLISH'',
                icsName = cTitle calendar, icsEvents = addEvents s uc ?ts\<rparr>"
  have res: "CreateIcs fault now order s r i =
      (fst (SetCalendarRetrievedAt fault now r (cId calendar)), Inr ?ics)"
    using cal uc unfolding CreateIcs_def by (simp add: Let_def)
  have ev: "filter evAllDayFlag (icsEvents ?ics) = map (\<lambda>p. tournamentEvent uc (heap s p)) ?ps"
    by (simp add: addEvents_tournament_events)
  have dts: "distinct ?ts"
    unfolding resolveTournaments_def GetTournamentsForSeries_def
    by (intro distinct_appendListed)
      (simp add: distinct_map distinct_getTournaments [OF keyed order(1)])
  have setps: "set ?ps = {p. \<exists>k. tournaments s k = Some p \<and>
                         (seriesFilter (cfgSeries (Config calendar)) (Series (heap s p)) \<or>
                          k \<in> set (cfgTournaments (Config calendar)))}"
  proof -
    have "Some p \<in> set ?ts \<longleftrightarrow>
            (\<exists>k. tournaments s k = Some p \<and>
                 (seriesFilter (cfgSeries (Config calendar)) (Series (heap s p)) \<or>
                  k \<in> set (cfgTournaments (Config calendar))))" for p
    proof -
      have "Some p \<in> set ?ts \<longleftrightarrow>
              (\<exists>k \<in> set order. tournaments s k = Some p \<and>
                    seriesFilter (cfgSeries (Config calendar)) (Series (heap s p))) \<or>
              (\<exists>k \<in> set (cfgTournaments (Config calendar)). tournaments s k = Some p)"
      proof -
        have img: "Some p \<in> GetTournament s ` A \<longleftrightarrow> (\<exists>k \<in> A. tournaments s k = Some p)" for A
          unfolding GetTournament_def by force
        have ser: "Some p \<in> Some ` B \<longleftrightarrow> p \<in> B" for B :: "ptr set"
          by blast
        show ?thesis
          unfolding resolveTournaments_def GetTournamentsForSeries_def set_appendListed
            Un_iff set_map img ser set_getTournaments
          by blast
      qed
      also have "\<dots> \<longleftrightarrow>
            (\<exists>k. tournaments s k = Some p \<and>
                 (seriesFilter (cfgSeries (Config calendar)) (Series (heap s p)) \<or>
                  k \<in> set (cfgTournaments (Config calendar))))"
        unfolding order(2) by blast
      finally show ?thesis .
    qed
    then show ?thesis unfolding set_nonNil by simp
  qed
  have "\<forall>p \<in> set ?ps. \<exists>k. tournaments s k = Some p"
    unfolding setps by blast
  from distinct_resolved_ids [OF keyed distinct_nonNil [OF dts] this]
  have "distinct (map (\<lambda>p. tId (heap s p)) ?ps)" .
  with res ev setps [unfolded seriesFilter_iff] show ?thesis by blast
qed


text \<open>
  The example of the specification, with an unknown id and an unselected tournament added:
  the filter lists the ids 7 and 8 and the series A; tournament 7 is of series B, tournament
  9 of series A, tournament 5 of series C, and 8 is not stored. The export holds the
  tournaments 9 and 7 and not 5.
\<close>

lemma ex_catalog_keyedById: "keyedById exCatalog"
  unfolding keyedById_def exCatalog_def exService_def exTournament_def
  by (auto split: if_splits)

lemma ex_catalog_order: "set [9, 7, 5] = dom (tournaments exCatalog)"
  unfolding exCatalog_def exService_def by auto

lemma ex_GetCalendar:
  "GetCalendar noFault exRepo (CalendarId ''abc'') =
     Inr (Some (the (projr (GetCalendar noFault exRepo (CalendarId ''abc'')))))"
proof -
  have "\<not> isl (GetCalendar noFault exRepo (CalendarId ''abc'')) \<and>
        projr (GetCalendar noFault exRepo (CalendarId ''abc'')) \<noteq> None"
    by code_simp
  then show ?thesis
    by (cases "GetCalendar noFault exRepo (CalendarId ''abc'')") auto
qed

lemma ex_GetUpdateCount:
  "GetUpdateCount noFault exRepo = Inr (projr (GetUpdateCount noFault exRepo))"
  unfolding GetUpdateCount_def GetCalendarUpdateCount_def noFault_def by simp

lemma ex_tournament_uids:
  "map evUid (filter evAllDayFlag
      (icsEvents (projr (snd (CreateIcs noFault (exTime 200) [9, 7, 5] exCatalog exRepo ''abc'')))))
   = [''tournament-9@dg-cal'', ''tournament-7@dg-cal'']"
  by code_simp

lemma ex_catalog_stored:
  "map (\<lambda>k. map_option (\<lambda>t. (tId t, Series t)) (stored exCatalog k)) [9, 7, 5, 8]
     = [Some (9, [''A'']), Some (7, [''B'']), Some (5, [''C'']), None]"
  by code_simp

lemma ex_catalog_unselected:
  "tournaments exCatalog 5 = Some 2 \<and> set (Series (heap exCatalog 2)) \<inter> set [''A''] = {} \<and>
   5 \<notin> set [7, 8 :: int]"
  unfolding exCatalog_def exService_def exTournament_def by simp

theorem CreateIcs_resolves_union_witness:
  "GetCalendar noFault exRepo (CalendarId ''abc'') =
     Inr (Some (the (projr (GetCalendar noFault exRepo (CalendarId ''abc''))))) \<and>
   GetUpdateCount noFault exRepo = Inr (projr (GetUpdateCount noFault exRepo)) \<and>
   keyedById exCatalog \<and> distinct [9, 7, 5 :: int] \<and>
   set [9, 7, 5] = dom (tournaments exCatalog) \<and>
   cfgTournaments (Config (the (projr (GetCalendar noFault exRepo (CalendarId ''abc''))))) = [7, 8] \<and>
   cfgSeries (Config (the (projr (GetCalendar noFault exRepo (CalendarId ''abc''))))) = [''A''] \<and>
   map (\<lambda>k. map_option (\<lambda>t. (tId t, Series t)) (stored exCatalog k)) [9, 7, 5, 8]
     = [Some (9, [''A'']), Some (7, [''B'']), Some (5, [''C'']), None] \<and>
   map evUid (filter evAllDayFlag
      (icsEvents (projr (snd (CreateIcs noFault (exTime 200) [9, 7, 5] exCatalog exRepo ''abc'')))))
     = [''tournament-9@dg-cal'', ''tournament-7@dg-cal''] \<and>
   (\<exists>r' ics ps.
      CreateIcs noFault (exTime 200) [9, 7, 5] exCatalog exRepo ''abc'' = (r', Inr ics) \<and>
      filter evAllDayFlag (icsEvents ics) =
        map (\<lambda>p. tournamentEvent (projr (GetUpdateCount noFault exRepo)) (heap exCatalog p)) ps \<and>
      distinct (map (\<lambda>p. tId (heap exCatalog p)) ps) \<and>
      set ps = {p. \<exists>k. tournaments exCatalog k = Some p \<and>
                    (set (Series (heap exCatalog p)) \<inter> set [''A''] \<noteq> {} \<or> k \<in> set [7, 8])} \<and>
      2 \<notin> set ps \<and> tournaments exCatalog 5 = Some 2)"
proof -
  let ?calendar = "the (projr (GetCalendar noFault exRepo (CalendarId ''abc'')))"
  have d: "distinct [9, 7, 5 :: int]" by simp
  have c1: "cfgTournaments (Config ?calendar) = [7, 8]" by code_simp
  have c2: "cfgSeries (Config ?calendar) = [''A'']" by code_simp
  from CreateIcs_resolves_union [OF ex_GetCalendar ex_GetUpdateCount ex_catalog_keyedById d
      ex_catalog_order, of "exTime 200"]
  obtain r' ics ps where ps:
    "CreateIcs noFault (exTime 200) [9, 7, 5] exCatalog exRepo ''abc'' = (r', Inr ics)"
    "filter evAllDayFlag (icsEvents ics) =
        map (\<lambda>p. tournamentEvent (projr (GetUpdateCount noFault exRepo)) (heap exCatalog p)) ps"
    "distinct (map (\<lambda>p. tId (heap exCatalog p)) ps)"
    "set ps = {p. \<exists>k. tournaments exCatalog k = Some p \<and>
                    (set (Series (heap exCatalog p)) \<inter> set [''A''] \<noteq> {} \<or> k \<in> set [7, 8])}"
    unfolding c1 c2 by blast
  have "2 \<notin> set ps"
  proof
    assume "2 \<in> set ps"
    then obtain k where k: "tournaments exCatalog k = Some 2"
      "set (Series (heap exCatalog 2)) \<inter> set [''A''] \<noteq> {} \<or> k \<in> set [7, 8]"
      unfolding ps(4) by blast
    from k(1) ex_catalog_unselected ex_catalog_keyedById have "k = 5"
      unfolding keyedById_def by (metis option.inject)
    with k(2) ex_catalog_unselected show False by simp
  qed
  with ps ex_catalog_unselected have
    "\<exists>r' ics ps.
      CreateIcs noFault (exTime 200) [9, 7, 5] exCatalog exRepo ''abc'' = (r', Inr ics) \<and>
      filter evAllDayFlag (icsEvents ics) =
        map (\<lambda>p. tournamentEvent (projr (GetUpdateCount noFault exRepo)) (heap exCatalog p)) ps \<and>
      distinct (map (\<lambda>p. tId (heap exCatalog p)) ps) \<and>
      set ps = {p. \<exists>k. tournaments exCatalog k = Some p \<and>
                    (set (Series (heap exCatalog p)) \<inter> set [''A''] \<noteq> {} \<or> k \<in> set [7, 8])} \<and>
      2 \<notin> set ps \<and> tournaments exCatalog 5 = Some 2"
    by blast
  with ex_GetCalendar ex_GetUpdateCount ex_catalog_keyedById d ex_catalog_order c1 c2
    ex_catalog_stored ex_tournament_uids
  show ?thesis by blast
qed

section \<open>Properties of the extractors\<close>

subsection \<open>Identifiers of the schedule feed\<close>

lemma cutAfter_None: "CHR ''-'' \<notin> set s \<Longrightarrow> cutAfter CHR ''-'' s = None"
  by (induction s) auto

lemma typeAndId_no_hyphen:
  assumes "CHR ''-'' \<notin> set s"
  shows "typeAndId (s @ ''@turniere.discgolf.de'') = Inl PanicIndexOutOfRange"
proof -
  have cut: "CutSuffix (s @ ''@turniere.discgolf.de'') ''@turniere.discgolf.de'' = (s, True)"
    unfolding CutSuffix_def by simp
  have "genSplitAfter k s CHR ''-'' = [s]" for k
    by (cases k) (simp_all add: cutAfter_None [OF assms])
  then have "SplitAfterN s CHR ''-'' 3 = [s]"
    unfolding SplitAfterN_def by simp
  then show ?thesis
    unfolding typeAndId_def cut by simp
qed

lemma typeAndId_ex1: "typeAndId ''42@turniere.discgolf.de'' = Inl PanicIndexOutOfRange"
  by code_simp

lemma typeAndId_ex2: "typeAndId ''registration-42@turniere.discgolf.de'' = Inl PanicIndexOutOfRange"
  by code_simp

text \<open>
  Claim C8 says that an identifier which does not fit the pattern gives an error value and
  never a panic. The code does otherwise: for the identifier \<^verbatim>\<open>42@turniere.discgolf.de\<close>
  (the domain suffix, no hyphen) and for \<^verbatim>\<open>registration-42@turniere.discgolf.de\<close> (a
  registration identifier without its third segment) \<^verbatim>\<open>typeAndId\<close> indexes past the end
  of \<^verbatim>\<open>parts\<close>, and the panic goes through \<^verbatim>\<open>parseIcsEvents\<close> and
  \<^verbatim>\<open>FetchTournaments\<close>.
\<close>

theorem typeAndId_panics:
  "typeAndId ''42@turniere.discgolf.de'' = Inl PanicIndexOutOfRange \<and>
   typeAndId ''registration-42@turniere.discgolf.de'' = Inl PanicIndexOutOfRange \<and>
   isPanic PanicIndexOutOfRange \<and>
   parseIcsEvents [exIcsEvent ''42@turniere.discgolf.de''] = Inl PanicIndexOutOfRange \<and>
   FetchTournaments (Inr exUpdates) (Inr [exIcsEvent ''42@turniere.discgolf.de''])
     = Inl PanicIndexOutOfRange"
  by (simp add: typeAndId_ex1 typeAndId_ex2 parseIcsEvents_def FetchTournaments_def exIcsEvent_def)


subsection \<open>The merged fetch\<close>










text \<open>
  A tournament that \<^verbatim>\<open>FetchTournaments\<close> returns carries no registrations: the feed
  extractor never sets them, they come from the detail page only.
\<close>

lemma parseTournament_Registrations:
  "parseTournament ev t = Inr t' \<Longrightarrow> Registrations t' = Registrations t"
  unfolding parseTournament_def by (auto split: sum.splits)

lemma parseIcsEventsFrom_no_registrations:
  "parseIcsEventsFrom evs result = Inr feed \<Longrightarrow>
   (\<forall>i t. result i = Some t \<longrightarrow> Registrations t = []) \<Longrightarrow>
   feed i = Some t \<Longrightarrow> Registrations t = []"
proof (induction evs arbitrary: result)
  case Nil
  then show ?case by simp
next
  case (Cons ev evs)
  from Cons.prems(1) obtain k j where tid: "typeAndId (ieId ev) = Inr (k, j)"
    by (auto split: sum.splits)
  define tm where "tm = (case result j of None \<Rightarrow> zeroTournament\<lparr>tId := j\<rparr> | Some tm \<Rightarrow> tm)"
  have tm: "Registrations tm = []"
    unfolding tm_def using Cons.prems(2) by (auto simp: zeroTournament_def split: option.splits)
  show ?case
  proof (cases "k = EVENT_TYPE_REGISTRATION")
    case True
    with Cons.prems(1) tid have run: "parseIcsEventsFrom evs (result(j \<mapsto> tm)) = Inr feed"
      by (simp add: tm_def Let_def)
    have "\<forall>i t. (result(j \<mapsto> tm)) i = Some t \<longrightarrow> Registrations t = []"
      using Cons.prems(2) tm by auto
    from Cons.IH [OF run this Cons.prems(3)] show ?thesis .
  next
    case False
    with Cons.prems(1) tid obtain tm' where pt: "parseTournament ev tm = Inr tm'"
      and run: "parseIcsEventsFrom evs (result(j \<mapsto> tm')) = Inr feed"
      by (auto simp: tm_def Let_def split: sum.splits)
    have "\<forall>i t. (result(j \<mapsto> tm')) i = Some t \<longrightarrow> Registrations t = []"
      using Cons.prems(2) tm parseTournament_Registrations [OF pt] by auto
    from Cons.IH [OF run this Cons.prems(3)] show ?thesis .
  qed
qed

lemma mergeUpdates_no_registrations:
  "(\<forall>i t. feed i = Some t \<longrightarrow> Registrations t = []) \<Longrightarrow>
   (\<forall>i t. result i = Some t \<longrightarrow> Registrations t = []) \<Longrightarrow>
   mergeUpdates ups feed result i = Some t \<Longrightarrow> Registrations t = []"
proof (induction ups feed result rule: mergeUpdates.induct)
  case (1 feed result)
  then show ?case by simp
next
  case (2 j update rest feed result)
  show ?case
  proof (cases "feed j")
    case None
    show ?thesis
    proof (cases "status update \<in> set [TOURNAMENT_STATUS_CANCELLED, TOURNAMENT_STATUS_DONE]")
      case True
      let ?r = "result(j \<mapsto> zeroTournament\<lparr>tId := j, Status := status update,
                                               UpdatedAt := updated update\<rparr>)"
      have r: "\<forall>i t. ?r i = Some t \<longrightarrow> Registrations t = []"
        using "2.prems"(2) by (auto simp: zeroTournament_def)
      from "2.prems"(3) None True have "mergeUpdates rest feed ?r i = Some t" by simp
      from "2.IH"(1) [OF None True "2.prems"(1) r this] show ?thesis .
    next
      case False
      from "2.prems"(3) None False have "mergeUpdates rest feed result i = Some t" by simp
      from "2.IH"(2) [OF None False "2.prems"(1,2) this] show ?thesis .
    qed
  next
    case (Some tournament)
    let ?r = "result(j \<mapsto> tournament\<lparr>UpdatedAt := updated update, Status := status update\<rparr>)"
    from Some "2.prems"(1) have "Registrations tournament = []" by blast
    then have r: "\<forall>i t. ?r i = Some t \<longrightarrow> Registrations t = []"
      using "2.prems"(2) by auto
    from "2.prems"(3) Some have "mergeUpdates rest feed ?r i = Some t" by simp
    from "2.IH"(3) [OF Some "2.prems"(1) r this] show ?thesis .
  qed
qed

lemma FetchTournaments_no_registrations:
  assumes "FetchTournaments updates fetched = Inr result" and "result i = Some t"
  shows "Registrations t = []"
proof -
  from assms(1) obtain ups events feed where
    feed: "parseIcsEvents events = Inr feed" and res: "result = mergeUpdates ups feed Map.empty"
    unfolding FetchTournaments_def by (auto split: sum.splits)
  from feed have "\<forall>i t. feed i = Some t \<longrightarrow> Registrations t = []"
    unfolding parseIcsEvents_def
    using parseIcsEventsFrom_no_registrations [of events Map.empty feed] by simp
  from mergeUpdates_no_registrations [OF this, of Map.empty ups i t] assms(2) res
  show ?thesis by simp
qed

subsection \<open>Date ranges\<close>

lemma Split_no_sep: "sep \<notin> set a \<Longrightarrow> Split a sep = [a]"
  by (induction a) auto

lemma Split_append_sep: "sep \<notin> set a \<Longrightarrow> Split (a @ sep # rest) sep = a # Split rest sep"
  by (induction a) auto

lemma Split_nonempty: "Split s sep \<noteq> []"
  by (induction s) (auto split: list.splits)

lemma ex_range_counter_parts:
  "length (Split ''01.01.2024-02.01.2024-03.01.2024'' CHR ''-'') = 3"
  by code_simp

lemma ex_range_counter_second:
  "ParseInLocation dateLayout (TrimSpace (Split ''01.01.2024-02.01.2024-03.01.2024'' CHR ''-'' ! 1)) Berlin
     = Some (Date 2024 1 2 0 0 0 0 Berlin)"
  by code_simp

lemma ex_range_counter_result:
  "parseDateRange ''01.01.2024-02.01.2024-03.01.2024'' dateLayout Berlin
     = Inr (Some (Date 2024 1 1 0 0 0 0 Berlin), None)"
  by code_simp

lemma ex_range_single:
  "parseDateRange ''01.01.2024'' dateLayout Berlin = Inr (Some (Date 2024 1 1 0 0 0 0 Berlin), None)"
  by code_simp

lemma ex_range_both:
  "parseDateRange ''01.01.2024 10:00 - 02.01.2024 12:00'' dateTimeLayout Berlin
     = Inr (Some (Date 2024 1 1 10 0 0 0 Berlin), Some (Date 2024 1 2 12 0 0 0 Berlin))"
  by code_simp

lemma ex_dates:
  "(let t = Date 2024 1 1 10 0 0 0 Berlin in (Year t, Month t, Day t, HourOf t, Minute t, Second t))
     = (2024, 1, 1, 10, 0, 0)"
  by code_simp


text \<open>
  Against claim C5 as stated: the text \<^verbatim>\<open>01.01.2024-02.01.2024-03.01.2024\<close> is split
  into three parts, not at most two, and although its second part is there and parses as a
  date, the end is left unset.
\<close>

theorem parseDateRange_three_parts_counterexample:
  "length (Split ''01.01.2024-02.01.2024-03.01.2024'' CHR ''-'') = 3 \<and>
   ParseInLocation dateLayout (TrimSpace (Split ''01.01.2024-02.01.2024-03.01.2024'' CHR ''-'' ! 1)) Berlin
     = Some (Date 2024 1 2 0 0 0 0 Berlin) \<and>
   parseDateRange ''01.01.2024-02.01.2024-03.01.2024'' dateLayout Berlin
     = Inr (Some (Date 2024 1 1 0 0 0 0 Berlin), None)"
  using ex_range_counter_parts ex_range_counter_second ex_range_counter_result by simp

lemma ex_turnierbetrieb:
  "dStartDate (parseTurnierbetrieb ''01.01.2024'' Berlin details) = Date 2024 1 1 0 0 0 0 Berlin \<and>
   dEndDate (parseTurnierbetrieb ''01.01.2024'' Berlin details) = Date 2024 1 1 0 0 0 0 Berlin"
  unfolding parseTurnierbetrieb_def ex_range_single by simp

text \<open>
  Claim C5, amended. \<^verbatim>\<open>parseDateRange\<close> splits its input at every hyphen and parses the
  first part, trimmed, in the given layout and location. With no hyphen the end is unset;
  with exactly one hyphen the second part is parsed the same way and returned as the end;
  with two hyphens or more the end is unset again and only the first part is parsed. For the
  tournament's date range \<^verbatim>\<open>01.01.2024\<close> gives start and end 2024-01-01 (the caller
  puts the start for the missing end), and \<^verbatim>\<open>01.01.2024 10:00 - 02.01.2024 12:00\<close>
  in the layout with a clock gives 2024-01-01 10:00 and 2024-01-02 12:00.
\<close>

theorem parseDateRange_by_parts:
  assumes "CHR ''-'' \<notin> set a" and "CHR ''-'' \<notin> set b"
  shows "parseDateRange a lay l =
           (case ParseInLocation lay (TrimSpace a) l of
              None \<Rightarrow> Inl ParseStartError
            | Some startDate \<Rightarrow> Inr (Some startDate, None)) \<and>
         parseDateRange (a @ ''-'' @ b) lay l =
           (case ParseInLocation lay (TrimSpace a) l of
              None \<Rightarrow> Inl ParseStartError
            | Some startDate \<Rightarrow>
                (case ParseInLocation lay (TrimSpace b) l of
                   None \<Rightarrow> Inl ParseEndError
                 | Some endDate \<Rightarrow> Inr (Some startDate, Some endDate))) \<and>
         parseDateRange (a @ ''-'' @ b @ ''-'' @ c) lay l =
           (case ParseInLocation lay (TrimSpace a) l of
              None \<Rightarrow> Inl ParseStartError
            | Some startDate \<Rightarrow> Inr (Some startDate, None)) \<and>
         dStartDate (parseTurnierbetrieb ''01.01.2024'' Berlin details) = Date 2024 1 1 0 0 0 0 Berlin \<and>
         dEndDate (parseTurnierbetrieb ''01.01.2024'' Berlin details) = Date 2024 1 1 0 0 0 0 Berlin \<and>
         parseDateRange ''01.01.2024 10:00 - 02.01.2024 12:00'' dateTimeLayout Berlin
           = Inr (Some (Date 2024 1 1 10 0 0 0 Berlin), Some (Date 2024 1 2 12 0 0 0 Berlin))"
proof -
  have one: "Split a CHR ''-'' = [a]"
    by (rule Split_no_sep [OF assms(1)])
  have two: "Split (a @ ''-'' @ b) CHR ''-'' = [a, b]"
    using Split_append_sep [OF assms(1), of b] Split_no_sep [OF assms(2)] by simp
  obtain p ps where rest: "Split c CHR ''-'' = p # ps"
    using Split_nonempty [of c "CHR ''-''"] by (cases "Split c CHR ''-''") auto
  have three: "Split (a @ ''-'' @ b @ ''-'' @ c) CHR ''-'' = a # b # p # ps"
    using Split_append_sep [OF assms(1), of "b @ ''-'' @ c"] Split_append_sep [OF assms(2), of c] rest
    by simp
  have g1: "parseDateRange a lay l =
           (case ParseInLocation lay (TrimSpace a) l of
              None \<Rightarrow> Inl ParseStartError
            | Some startDate \<Rightarrow> Inr (Some startDate, None))"
    unfolding parseDateRange_def one by (simp split: option.splits)
  have g2: "parseDateRange (a @ ''-'' @ b) lay l =
           (case ParseInLocation lay (TrimSpace a) l of
              None \<Rightarrow> Inl ParseStartError
            | Some startDate \<Rightarrow>
                (case ParseInLocation lay (TrimSpace b) l of
                   None \<Rightarrow> Inl ParseEndError
                 | Some endDate \<Rightarrow> Inr (Some startDate, Some endDate)))"
    unfolding parseDateRange_def two by (simp split: option.splits)
  have g3: "parseDateRange (a @ ''-'' @ b @ ''-'' @ c) lay l =
           (case ParseInLocation lay (TrimSpace a) l of
              None \<Rightarrow> Inl ParseStartError
            | Some startDate \<Rightarrow> Inr (Some startDate, None))"
    unfolding parseDateRange_def three by (simp split: option.splits)
  from g1 g2 g3 ex_turnierbetrieb [of details] ex_range_both show ?thesis by simp
qed

lemma ex_parse_start:
  "ParseInLocation dateTimeLayout (TrimSpace ''01.01.2024 10:00 '') Berlin
     = Some (Date 2024 1 1 10 0 0 0 Berlin)"
  by code_simp

lemma ex_parse_end:
  "ParseInLocation dateTimeLayout (TrimSpace '' 02.01.2024 12:00'') Berlin
     = Some (Date 2024 1 2 12 0 0 0 Berlin)"
  by code_simp

theorem parseDateRange_by_parts_witness:
  "CHR ''-'' \<notin> set ''01.01.2024 10:00 '' \<and> CHR ''-'' \<notin> set '' 02.01.2024 12:00'' \<and>
   parseDateRange ''01.01.2024 10:00 '' dateTimeLayout Berlin
     = Inr (Some (Date 2024 1 1 10 0 0 0 Berlin), None) \<and>
   parseDateRange (''01.01.2024 10:00 '' @ ''-'' @ '' 02.01.2024 12:00'') dateTimeLayout Berlin
     = Inr (Some (Date 2024 1 1 10 0 0 0 Berlin), Some (Date 2024 1 2 12 0 0 0 Berlin)) \<and>
   parseDateRange (''01.01.2024 10:00 '' @ ''-'' @ '' 02.01.2024 12:00'' @ ''-'' @ '' 03.01.2024 12:00'')
       dateTimeLayout Berlin
     = Inr (Some (Date 2024 1 1 10 0 0 0 Berlin), None)"
proof -
  have h1: "CHR ''-'' \<notin> set ''01.01.2024 10:00 ''" by simp
  have h2: "CHR ''-'' \<notin> set '' 02.01.2024 12:00''" by simp
  from parseDateRange_by_parts [OF h1 h2, of dateTimeLayout Berlin "'' 03.01.2024 12:00''"]
  show ?thesis
    unfolding ex_parse_start ex_parse_end using h1 h2 by simp
qed

subsection \<open>The inclusive end date\<close>

lemma steady_fixed_zone: "zoneTrans l = [] \<Longrightarrow> steady l w"
  unfolding steady_def lookup_def by simp

text \<open>
  In the zone table of the examples (Berlin, 2024) the clock changes at 01:00 UTC, so
  midnight of every day is steady.
\<close>

lemma steady_Berlin_midnight: "steady Berlin (n * 86400)"
proof -
  consider "n \<le> 19813" | "19814 \<le> n" "n \<le> 20023" | "20024 \<le> n" by linarith
  then show ?thesis
  proof cases
    case 1
    then show ?thesis
      unfolding steady_def zoneOffset_def lookup_def Berlin_def by simp
  next
    case 2
    then show ?thesis
      unfolding steady_def zoneOffset_def lookup_def Berlin_def by simp
  next
    case 3
    then show ?thesis
      unfolding steady_def zoneOffset_def lookup_def Berlin_def by simp
  qed
qed

lemma monthOfYday_range: "1 \<le> monthOfYday y yday \<and> monthOfYday y yday \<le> 12"
proof -
  have "length (filter (\<lambda>m. daysBeforeMonth y m \<le> yday) [2, 3, 4, 5, 6, 7, 8, 9, 10, 11, 12])
          \<le> length [2 :: int, 3, 4, 5, 6, 7, 8, 9, 10, 11, 12]"
    by (rule length_filter_le)
  then show ?thesis unfolding monthOfYday_def by simp
qed

lemma civil_days:
  "daysSinceEpoch (fst (civil n)) + daysBeforeMonth (fst (civil n)) (fst (snd (civil n)))
     + (snd (snd (civil n)) - 1) = n"
  unfolding civil_def by (simp add: Let_def)

lemma civil_month: "1 \<le> fst (snd (civil n)) \<and> fst (snd (civil n)) \<le> 12"
  unfolding civil_def using monthOfYday_range by (simp add: Let_def)

lemma resolveWall_steady:
  assumes "steady l w"
  shows "resolveWall l w = w - zoneOffset l w"
proof -
  obtain off start stop where lk: "lookup l w = (off, start, stop)"
    by (cases "lookup l w")
  then have off: "zoneOffset l w = off" unfolding zoneOffset_def by simp
  from assms have "zoneOffset l (w - off) = off"
    unfolding steady_def off zoneOffset_def by (simp add: lk)
  then show ?thesis
    unfolding resolveWall_def off by (simp add: lk Let_def)
qed

lemma wallSeconds_in_range:
  assumes "1 \<le> month" "month \<le> 12" "0 \<le> nsec" "nsec < 1000000000"
  shows "wallSeconds year month day hour minute sec nsec =
           (daysSinceEpoch year + daysBeforeMonth year month + (day - 1)) * 86400
              + hour * 3600 + minute * 60 + sec"
proof -
  have m: "(month - 1) div 12 = 0" "(month - 1) mod 12 + 1 = month"
    using assms(1,2) by auto
  have n: "nsec div 1000000000 = 0"
    using assms(3,4) by auto
  show ?thesis unfolding wallSeconds_def Let_def m n by simp
qed

lemma Date_steady:
  assumes "1 \<le> month" "month \<le> 12"
    and "0 \<le> nsec" "nsec < 1000000000"
    and "w = (daysSinceEpoch year + daysBeforeMonth year month + (day - 1)) * 86400
              + hour * 3600 + minute * 60 + sec"
    and "steady l w"
  shows "Date year month day hour minute sec nsec l =
           \<lparr>unixNano = (w - zoneOffset l w) * 1000000000 + nsec, loc = l\<rparr>"
proof -
  have ws: "wallSeconds year month day hour minute sec nsec = w"
    unfolding wallSeconds_in_range [OF assms(1-4)] assms(5) ..
  have n: "nsec mod 1000000000 = nsec"
    using assms(3,4) by auto
  show ?thesis
    unfolding Date_def ws n resolveWall_steady [OF assms(6)] ..
qed

lemma localSec_steady:
  assumes "0 \<le> nsec" "nsec < 1000000000" "steady l w"
  shows "localSec \<lparr>unixNano = (w - zoneOffset l w) * 1000000000 + nsec, loc = l\<rparr> = w"
proof -
  have "((w - zoneOffset l w) * 1000000000 + nsec) div 1000000000 = w - zoneOffset l w"
    using assms(1,2) by (simp add: div_pos_pos_trivial)
  moreover from assms(3) have "zoneOffset l (w - zoneOffset l w) = zoneOffset l w"
    unfolding steady_def zoneOffset_def by simp
  ultimately show ?thesis unfolding localSec_def unixSec_def by simp
qed

text \<open>The time that \<^verbatim>\<open>Date\<close> gives for midnight of the day numbered \<open>n\<close>.\<close>

lemma Date_midnight:
  assumes "steady l (n * 86400)"
  shows "Date (fst (civil n)) (fst (snd (civil n))) (snd (snd (civil n))) 0 0 0 0 l
           = \<lparr>unixNano = (n * 86400 - zoneOffset l (n * 86400)) * 1000000000, loc = l\<rparr>"
  using Date_steady [of "fst (snd (civil n))" 0 "n * 86400" "fst (civil n)" "snd (snd (civil n))" 0 0 0 l]
    civil_month [of n] civil_days [of n] assms
  by simp

lemma midnight_fields:
  assumes "steady l (n * 86400)"
  defines "t \<equiv> \<lparr>unixNano = (n * 86400 - zoneOffset l (n * 86400)) * 1000000000, loc = l\<rparr>"
  shows "localDay t = n" "secondOfDay t = 0" "Nanosecond t = 0" "loc t = l"
proof -
  have ls: "localSec t = n * 86400"
    unfolding t_def using localSec_steady [of 0 l "n * 86400"] assms(1) by simp
  show "localDay t = n" unfolding localDay_def ls by simp
  show "secondOfDay t = 0" unfolding secondOfDay_def ls by simp
  show "Nanosecond t = 0" unfolding Nanosecond_def t_def by simp
  show "loc t = l" unfolding t_def by simp
qed

lemma AddDate_midnight:
  assumes "steady l (n * 86400)" "steady l ((n - 1) * 86400)"
  shows "AddDate \<lparr>unixNano = (n * 86400 - zoneOffset l (n * 86400)) * 1000000000, loc = l\<rparr> 0 0 (- 1)
           = \<lparr>unixNano = ((n - 1) * 86400 - zoneOffset l ((n - 1) * 86400)) * 1000000000, loc = l\<rparr>"
proof -
  let ?t = "\<lparr>unixNano = (n * 86400 - zoneOffset l (n * 86400)) * 1000000000, loc = l\<rparr>"
  note f = midnight_fields [OF assms(1)]
  have w: "(n - 1) * 86400 =
      (daysSinceEpoch (fst (civil n)) + daysBeforeMonth (fst (civil n)) (fst (snd (civil n)))
         + (snd (snd (civil n)) + - 1 - 1)) * 86400 + 0 * 3600 + 0 * 60 + 0"
    using civil_days [of n] by simp
  have "AddDate ?t 0 0 (- 1) =
      Date (fst (civil n)) (fst (snd (civil n))) (snd (snd (civil n)) + - 1) 0 0 0 0 l"
    unfolding AddDate_def Year_def Month_def Day_def HourOf_def Minute_def Second_def f by simp
  also have "\<dots> = \<lparr>unixNano = ((n - 1) * 86400 - zoneOffset l ((n - 1) * 86400)) * 1000000000 + 0, loc = l\<rparr>"
    using civil_month [of n] by (intro Date_steady [OF _ _ _ _ w assms(2)]) simp_all
  finally show ?thesis by simp
qed

lemma parseTournament_EndDate:
  assumes "parseTournament event tournament = Inr t'" and "ieEndAt event = Inr dtEnd"
  shows "EndDate t' =
     AddDate (Date (Year dtEnd) (Month dtEnd) (Day dtEnd) 0 0 0 0 (loc dtEnd)) 0 0 (- 1)"
  using assms unfolding parseTournament_def by (auto split: sum.splits)

text \<open>
  The end date that \<^verbatim>\<open>parseTournament\<close> stores depends on the raw end only through its
  calendar day and its location, not through its time of day. When midnight of that day and
  of the day before are steady in the location (they are in every zone of fixed offset and,
  on every day, in the Berlin table), the stored end reads 00:00:00 on the calendar day
  before the raw end's day, whatever the length of the days in between.
\<close>

theorem parseTournament_inclusive_end:
  assumes "parseTournament event tournament = Inr t'" and "ieEndAt event = Inr dtEnd"
  shows "(\<forall>event2 tournament2 t2 dtEnd2.
            parseTournament event2 tournament2 = Inr t2 \<longrightarrow> ieEndAt event2 = Inr dtEnd2 \<longrightarrow>
            loc dtEnd2 = loc dtEnd \<longrightarrow> localDay dtEnd2 = localDay dtEnd \<longrightarrow>
            EndDate t2 = EndDate t') \<and>
         (steady (loc dtEnd) (localDay dtEnd * 86400) \<longrightarrow>
          steady (loc dtEnd) ((localDay dtEnd - 1) * 86400) \<longrightarrow>
            localDay (EndDate t') = localDay dtEnd - 1 \<and>
            secondOfDay (EndDate t') = 0 \<and> Nanosecond (EndDate t') = 0 \<and>
            loc (EndDate t') = loc dtEnd)"
proof (intro conjI allI impI)
  fix event2 tournament2 t2 dtEnd2
  assume p2: "parseTournament event2 tournament2 = Inr t2" "ieEndAt event2 = Inr dtEnd2"
    and same: "loc dtEnd2 = loc dtEnd" "localDay dtEnd2 = localDay dtEnd"
  from p2 have "EndDate t2 =
     AddDate (Date (Year dtEnd2) (Month dtEnd2) (Day dtEnd2) 0 0 0 0 (loc dtEnd2)) 0 0 (- 1)"
    by (rule parseTournament_EndDate)
  with same show "EndDate t2 = EndDate t'"
    unfolding parseTournament_EndDate [OF assms] Year_def Month_def Day_def by simp
next
  let ?n = "localDay dtEnd" and ?l = "loc dtEnd"
  assume st: "steady ?l (?n * 86400)" "steady ?l ((?n - 1) * 86400)"
  have e: "EndDate t' =
      \<lparr>unixNano = ((?n - 1) * 86400 - zoneOffset ?l ((?n - 1) * 86400)) * 1000000000, loc = ?l\<rparr>"
    unfolding parseTournament_EndDate [OF assms] Year_def Month_def Day_def
      Date_midnight [OF st(1)] AddDate_midnight [OF st] ..
  show "localDay (EndDate t') = ?n - 1" unfolding e by (rule midnight_fields [OF st(2)])
  show "secondOfDay (EndDate t') = 0" unfolding e by (rule midnight_fields [OF st(2)])
  show "Nanosecond (EndDate t') = 0" unfolding e by (rule midnight_fields [OF st(2)])
  show "loc (EndDate t') = ?l" unfolding e by (rule midnight_fields [OF st(2)])
qed


text \<open>
  The example event spans the change to summer time: its raw end reads 2024-04-01 01:00, 48
  hours after its start at 2024-03-30 00:00. The stored end is 2024-03-31 00:00. The example
  of the specification, a raw end of 2024-06-03 00:00, gives 2024-06-02.
\<close>

lemma ex_dst_span: "unixSec exDstEnd - unixSec (Date 2024 3 30 0 0 0 0 Berlin) = 48 * 3600"
  by code_simp

lemma ex_dst_parse: "\<not> isl (parseTournament exDstEvent zeroTournament)"
  by code_simp

lemma ex_dst_steady:
  "steady (loc exDstEnd) (localDay exDstEnd * 86400) \<and>
   steady (loc exDstEnd) ((localDay exDstEnd - 1) * 86400)"
  by code_simp

lemma ex_dst_date:
  "civil (localDay exDstEnd) = (2024, 4, 1) \<and>
   civil (localDay (EndDate (projr (parseTournament exDstEvent zeroTournament)))) = (2024, 3, 31)"
  by code_simp

lemma ex_june_date:
  "civil (localDay (EndDate (projr (parseTournament
      (exIcsEvent ''tournament-1@turniere.discgolf.de'') zeroTournament)))) = (2024, 6, 2)"
  by code_simp

theorem parseTournament_inclusive_end_witness:
  "parseTournament exDstEvent zeroTournament = Inr (projr (parseTournament exDstEvent zeroTournament)) \<and>
   ieEndAt exDstEvent = Inr exDstEnd \<and>
   steady (loc exDstEnd) (localDay exDstEnd * 86400) \<and>
   steady (loc exDstEnd) ((localDay exDstEnd - 1) * 86400) \<and>
   civil (localDay exDstEnd) = (2024, 4, 1) \<and>
   civil (localDay (EndDate (projr (parseTournament exDstEvent zeroTournament)))) = (2024, 3, 31) \<and>
   localDay (EndDate (projr (parseTournament exDstEvent zeroTournament))) = localDay exDstEnd - 1 \<and>
   secondOfDay (EndDate (projr (parseTournament exDstEvent zeroTournament))) = 0 \<and>
   Nanosecond (EndDate (projr (parseTournament exDstEvent zeroTournament))) = 0 \<and>
   loc (EndDate (projr (parseTournament exDstEvent zeroTournament))) = loc exDstEnd"
proof -
  have h1: "parseTournament exDstEvent zeroTournament
      = Inr (projr (parseTournament exDstEvent zeroTournament))"
    using ex_dst_parse by (cases "parseTournament exDstEvent zeroTournament") auto
  have h2: "ieEndAt exDstEvent = Inr exDstEnd"
    unfolding exDstEvent_def by simp
  from parseTournament_inclusive_end [OF h1 h2] ex_dst_steady h1 h2 ex_dst_date
  show ?thesis by blast
qed

subsection \<open>A day without midnight\<close>

text \<open>
  In the Sao Paulo table the reading 2018-11-04 00:00 is not steady: the clocks skipped it.
  \<^verbatim>\<open>Date\<close> resolves such a reading with the offset in force after the change, which gives
  the instant one hour before the change.
\<close>

lemma ex_gap_not_steady:
  "steady SaoPaulo (localDay exGapEnd * 86400) \<and>
   \<not> steady SaoPaulo ((localDay exGapEnd - 1) * 86400)"
  by code_simp

lemma ex_gap_Date:
  "unixSec (Date 2018 11 4 0 0 0 0 SaoPaulo) = 1541296800 \<and>
   unixSec (Date 2018 11 4 0 0 0 0 SaoPaulo) + 3600 = fst (hd (zoneTrans SaoPaulo))"
  by code_simp

text \<open>
  Claim C4. The assignment of the end date breaks the claim, and the comment above it
  (\<^verbatim>\<open>Convert exclusive DTEND to an inclusive end date while ignoring DST hour shifts\<close>), where
  the clock change of the zone removes local midnight of the day before the raw end. The
  example entry ends at 2018-11-05 00:00 in Sao Paulo (the instant 1541383200); the clocks
  there went from 2018-11-04 00:00 to 01:00. \<^verbatim>\<open>parseTournament\<close> succeeds and stores as the end
  the instant 1541296800, which reads 2018-11-03 23:00 in that zone: it is neither on the
  calendar day before the raw end, 2018-11-04, nor at midnight.
\<close>

theorem parseTournament_midnight_gap:
  "ieEndAt exGapEvent = Inr exGapEnd \<and>
   unixSec exGapEnd = 1541383200 \<and> loc exGapEnd = SaoPaulo \<and>
   civil (localDay exGapEnd) = (2018, 11, 5) \<and> secondOfDay exGapEnd = 0 \<and>
   \<not> isl (parseTournament exGapEvent zeroTournament) \<and>
   EndDate (projr (parseTournament exGapEvent zeroTournament))
     = \<lparr>unixNano = 1541296800 * 1000000000, loc = SaoPaulo\<rparr> \<and>
   civil (localDay (EndDate (projr (parseTournament exGapEvent zeroTournament)))) = (2018, 11, 3) \<and>
   HourOf (EndDate (projr (parseTournament exGapEvent zeroTournament))) = 23 \<and>
   secondOfDay (EndDate (projr (parseTournament exGapEvent zeroTournament))) \<noteq> 0 \<and>
   localDay (EndDate (projr (parseTournament exGapEvent zeroTournament))) \<noteq> localDay exGapEnd - 1"
  by code_simp

section \<open>Properties of the sync engine\<close>

subsection \<open>What the writes leave alone\<close>

lemma filter_map_replace:
  assumes "key new \<noteq> i"
  shows "filter (\<lambda>row. key row = i) (map (\<lambda>row. if P row then new else row) rows)
           = filter (\<lambda>row. key row = i) (filter (\<lambda>row. \<not> P row) rows)"
  using assms by (induction rows) auto

lemma upsertRegistrationRow_other:
  assumes "reg_id new \<noteq> i"
  shows "filter (\<lambda>row. reg_id row = i) (upsertRegistrationRow new rows)
           = filter (\<lambda>row. reg_id row = i) rows"
proof -
  have "filter (\<lambda>row. reg_id row = i)
          (filter (\<lambda>row. \<not> (reg_id row = reg_id new \<and> reg_title row = reg_title new)) rows)
        = filter (\<lambda>row. reg_id row = i) rows"
    using assms by (induction rows) auto
  then show ?thesis
    unfolding upsertRegistrationRow_def
    using filter_map_replace [of reg_id new i, OF assms] assms by simp
qed

lemma upsertTournamentRow_other:
  assumes "col_id new \<noteq> i"
  shows "filter (\<lambda>row. col_id row = i) (upsertTournamentRow new rows)
           = filter (\<lambda>row. col_id row = i) rows"
proof -
  have "filter (\<lambda>row. col_id row = i) (filter (\<lambda>row. \<not> col_id row = col_id new) rows)
        = filter (\<lambda>row. col_id row = i) rows"
    using assms by (induction rows) auto
  then show ?thesis
    unfolding upsertTournamentRow_def
    using filter_map_replace [of col_id new i, OF assms] assms by simp
qed

lemma sameElsewhere_refl: "sameElsewhere k r r"
  unfolding sameElsewhere_def by simp

lemma sameElsewhere_trans:
  "sameElsewhere k r r' \<Longrightarrow> sameElsewhere k r' r'' \<Longrightarrow> sameElsewhere k r r''"
  unfolding sameElsewhere_def by simp

lemma UpsertRegistration_elsewhere: "sameElsewhere k r (fst (UpsertRegistration fault r k reg))"
  unfolding sameElsewhere_def UpsertRegistration_def rowsOf_def
  by (simp add: upsertRegistrationRow_other)

lemma upsertRegistrations_elsewhere: "sameElsewhere k r (fst (upsertRegistrations fault r k regs))"
proof (induction regs arbitrary: r)
  case Nil
  show ?case by (simp add: sameElsewhere_refl)
next
  case (Cons reg regs)
  obtain r' e where u: "UpsertRegistration fault r k reg = (r', e)"
    by (cases "UpsertRegistration fault r k reg")
  have one: "sameElsewhere k r r'"
    using UpsertRegistration_elsewhere [of k r fault reg] by (simp add: u)
  show ?case
  proof (cases e)
    case None
    with u one Cons.IH [of r'] show ?thesis
      by (auto intro: sameElsewhere_trans)
  next
    case (Some err)
    with u one show ?thesis by simp
  qed
qed

lemma UpsertTournament_elsewhere: "sameElsewhere (tId t) r (fst (UpsertTournament fault r t))"
proof -
  let ?r1 = "r\<lparr>tournaments_tbl := upsertTournamentRow (rowOfTournament t) (tournaments_tbl r)\<rparr>"
  have "sameElsewhere (tId t) r ?r1"
    unfolding sameElsewhere_def rowsOf_def
    by (simp add: upsertTournamentRow_other rowOfTournament_def)
  then show ?thesis
    unfolding UpsertTournament_def
    using upsertRegistrations_elsewhere [of "tId t" ?r1 fault "Registrations t"]
    by (auto simp: sameElsewhere_refl intro: sameElsewhere_trans)
qed

lemma CreateTurnamentHistory_elsewhere:
  "sameElsewhere (tId t) r (fst (CreateTurnamentHistory fault now r t))"
  unfolding sameElsewhere_def CreateTurnamentHistory_def rowsOf_def by simp

lemma syncPhases_service:
  "tournaments (fst (syncPhases fault phases p (s, r))) = tournaments s \<and>
   nextPtr (fst (syncPhases fault phases p (s, r))) = nextPtr s \<and>
   lastSync (fst (syncPhases fault phases p (s, r))) = lastSync s \<and>
   (\<forall>q. q \<noteq> p \<longrightarrow> heap (fst (syncPhases fault phases p (s, r))) q = heap s q) \<and>
   heap (fst (syncPhases fault phases p (s, r))) p
     = (heap s p)\<lparr>Registrations := Registrations (heap s p) @ map registrationOf phases\<rparr>"
  by (induction phases arbitrary: s r) (simp_all add: Let_def registrationOf_def)

lemma syncPhases_elsewhere:
  "sameElsewhere (tId (heap s p)) r (snd (syncPhases fault phases p (s, r)))"
proof (induction phases arbitrary: s r)
  case Nil
  show ?case by (simp add: sameElsewhere_refl)
next
  case (Cons ph phases)
  let ?reg = "\<lparr>rTitle = pName ph, rStartDate = pStartDate ph, rEndDate = pEndDate ph\<rparr>"
  let ?r' = "fst (UpsertRegistration fault r (tId (heap s p)) ?reg)"
  let ?s' = "s\<lparr>heap := (heap s)(p := (heap s p)\<lparr>Registrations := Registrations (heap s p) @ [?reg]\<rparr>)\<rparr>"
  have "sameElsewhere (tId (heap s p)) ?r' (snd (syncPhases fault phases p (?s', ?r')))"
    using Cons.IH [of ?s' ?r'] by simp
  with UpsertRegistration_elsewhere [of "tId (heap s p)" r fault ?reg]
  show ?case by (auto simp: Let_def intro: sameElsewhere_trans)
qed


lemma UpsertRegistration_history:
  "tournament_history (fst (UpsertRegistration fault r k reg)) = tournament_history r"
  unfolding UpsertRegistration_def by simp

lemma upsertRegistrations_history:
  "tournament_history (fst (upsertRegistrations fault r k regs)) = tournament_history r"
proof (induction regs arbitrary: r)
  case Nil
  show ?case by simp
next
  case (Cons reg regs)
  obtain r' e where u: "UpsertRegistration fault r k reg = (r', e)"
    by (cases "UpsertRegistration fault r k reg")
  have one: "tournament_history r' = tournament_history r"
    using UpsertRegistration_history [of fault r k reg] by (simp add: u)
  show ?case by (cases e) (simp_all add: u one Cons.IH)
qed

lemma UpsertTournament_history:
  "tournament_history (fst (UpsertTournament fault r t)) = tournament_history r"
  unfolding UpsertTournament_def by (simp add: upsertRegistrations_history)

lemma syncPhases_repo_history:
  "tournament_history (snd (syncPhases fault phases p (s, r))) = tournament_history r"
  by (induction phases arbitrary: s r) (simp_all add: Let_def UpsertRegistration_history)

lemma syncPhases_registrations:
  assumes "\<forall>title. \<not> fault (OpUpsertRegistration (tId (heap s p)) title)"
  shows "registrations_tbl (snd (syncPhases fault phases p (s, r)))
           = upsertPhases (tId (heap s p)) phases (registrations_tbl r)"
  using assms
proof (induction phases arbitrary: s r)
  case Nil
  show ?case by (simp add: upsertPhases_def)
next
  case (Cons ph phases)
  let ?reg = "\<lparr>rTitle = pName ph, rStartDate = pStartDate ph, rEndDate = pEndDate ph\<rparr>"
  let ?r' = "fst (UpsertRegistration fault r (tId (heap s p)) ?reg)"
  let ?s' = "s\<lparr>heap := (heap s)(p := (heap s p)\<lparr>Registrations := Registrations (heap s p) @ [?reg]\<rparr>)\<rparr>"
  have id: "tId (heap ?s' p) = tId (heap s p)" by simp
  have r': "registrations_tbl ?r' = upsertRegistrationRow (rowOfPhase (tId (heap s p)) ph) (registrations_tbl r)"
    unfolding UpsertRegistration_def rowOfPhase_def using Cons.prems by simp
  have "registrations_tbl (snd (syncPhases fault phases p (?s', ?r')))
           = upsertPhases (tId (heap ?s' p)) phases (registrations_tbl ?r')"
    by (rule Cons.IH) (use Cons.prems in simp)
  then show ?case
    unfolding id r' by (simp add: Let_def upsertPhases_def)
qed

subsection \<open>One fetched tournament\<close>

lemma changed_iff:
  "changed s ft \<longleftrightarrow>
     (case tournaments s (tId ft) of None \<Rightarrow> True
      | Some q \<Rightarrow> Before (UpdatedAt (heap s q)) (UpdatedAt ft))"
  unfolding changed_def stored_def by (simp split: option.splits)

lemma syncTournament_unchanged:
  "\<not> changed s ft \<Longrightarrow> syncTournament env (s, r) ft = ((s, r), None)"
  unfolding syncTournament_def changed_iff by (simp add: Let_def)

lemma syncTournament_no_details:
  "changed s ft \<Longrightarrow> detailsOf env (tId ft) = Inl err \<Longrightarrow>
   syncTournament env (s, r) ft = ((s, r), Some err)"
  unfolding syncTournament_def changed_iff by (simp add: Let_def)

lemma applyDetails_keeps: "tId (applyDetails ft d) = tId ft" "UpdatedAt (applyDetails ft d) = UpdatedAt ft"
  "Status (applyDetails ft d) = Status ft" "Registrations (applyDetails ft d) = Registrations ft"
  unfolding applyDetails_def by simp_all

text \<open>The state after a changed tournament whose details were fetched.\<close>

lemma syncTournament_changed:
  assumes ch: "changed s ft" and det: "detailsOf env (tId ft) = Inr details"
    and run: "syncTournament env (s, r) ft = ((s', r'), e)"
  shows "tournaments s' = (tournaments s)(tId ft \<mapsto> nextPtr s)"
    and "nextPtr s' = Suc (nextPtr s)"
    and "lastSync s' = lastSync s"
    and "\<forall>q. q \<noteq> nextPtr s \<longrightarrow> heap s' q = heap s q"
    and "heap s' (nextPtr s) = (applyDetails ft details)
           \<lparr>Registrations := Registrations ft @ map registrationOf (dRegistrationPhases details)\<rparr>"
    and "sameElsewhere (tId ft) r r'"
    and "tournament_history r' =
           (if e = None
            then tournament_history r @
                   [\<lparr>h_tournament_id = tId ft, h_date = historyNow env (tId ft),
                     h_updated_at = UpdatedAt ft, h_snapshot = heap s' (nextPtr s)\<rparr>]
            else tournament_history r)"
    and "e = None \<longleftrightarrow>
           \<not> dbFault env (OpCreateTurnamentHistory (tId ft)) \<and>
           (tId ft, historyNow env (tId ft)) \<notin> set (historyKeys r)"
    and "Registrations ft = [] \<Longrightarrow>
         \<forall>title. \<not> dbFault env (OpUpsertRegistration (tId ft) title) \<Longrightarrow>
         registrations_tbl r' = upsertPhases (tId ft) (dRegistrationPhases details) (registrations_tbl r)"
proof -
  let ?p = "nextPtr s"
  let ?s1 = "s\<lparr>heap := (heap s)(?p := applyDetails ft details), nextPtr := Suc ?p,
                tournaments := (tournaments s)(tId ft \<mapsto> ?p)\<rparr>"
  let ?r1 = "fst (UpsertTournament (dbFault env) r (heap ?s1 ?p))"
  let ?sp = "syncPhases (dbFault env) (dRegistrationPhases details) ?p (?s1, ?r1)"
  let ?s2 = "fst ?sp" and ?r2 = "snd ?sp"
  let ?h = "CreateTurnamentHistory (dbFault env) (historyNow env (tId (heap ?s2 ?p))) ?r2 (heap ?s2 ?p)"
  from run ch det have res: "((s', r'), e) = ((?s2, fst ?h), snd ?h)"
    unfolding syncTournament_def changed_iff
    by (cases ?sp; cases ?h) (auto simp: Let_def split: option.splits)
  then have s': "s' = ?s2" and r': "r' = fst ?h" and e: "e = snd ?h" by simp_all
  note sv = syncPhases_service [of "dbFault env" "dRegistrationPhases details" ?p ?s1 ?r1]
  have h1: "heap ?s1 ?p = applyDetails ft details" by simp
  have hp: "heap ?s2 ?p = (applyDetails ft details)
           \<lparr>Registrations := Registrations ft @ map registrationOf (dRegistrationPhases details)\<rparr>"
    using sv by (simp add: applyDetails_keeps)
  have id2: "tId (heap ?s2 ?p) = tId ft" and up2: "UpdatedAt (heap ?s2 ?p) = UpdatedAt ft"
    unfolding hp by (simp_all add: applyDetails_keeps)
  show "tournaments s' = (tournaments s)(tId ft \<mapsto> nextPtr s)" unfolding s' using sv by simp
  show "nextPtr s' = Suc (nextPtr s)" unfolding s' using sv by simp
  show "lastSync s' = lastSync s" unfolding s' using sv by simp
  show "\<forall>q. q \<noteq> nextPtr s \<longrightarrow> heap s' q = heap s q" unfolding s' using sv by simp
  show "heap s' (nextPtr s) = (applyDetails ft details)
           \<lparr>Registrations := Registrations ft @ map registrationOf (dRegistrationPhases details)\<rparr>"
    unfolding s' by (rule hp)
  have a: "sameElsewhere (tId ft) r ?r1"
    using UpsertTournament_elsewhere [of "heap ?s1 ?p" r "dbFault env"]
    unfolding h1 applyDetails_keeps .
  have b: "sameElsewhere (tId ft) ?r1 ?r2"
    using syncPhases_elsewhere [of ?s1 ?p ?r1 "dbFault env" "dRegistrationPhases details"]
    unfolding h1 applyDetails_keeps .
  have c: "sameElsewhere (tId ft) ?r2 (fst ?h)"
    using CreateTurnamentHistory_elsewhere [of "heap ?s2 ?p" ?r2 "dbFault env"
        "historyNow env (tId (heap ?s2 ?p))"]
    unfolding id2 .
  show "sameElsewhere (tId ft) r r'"
    unfolding r' using a b c by (blast intro: sameElsewhere_trans)
  have hist2: "tournament_history ?r2 = tournament_history r"
    using syncPhases_repo_history UpsertTournament_history by simp
  show "tournament_history r' =
           (if e = None
            then tournament_history r @
                   [\<lparr>h_tournament_id = tId ft, h_date = historyNow env (tId ft),
                     h_updated_at = UpdatedAt ft, h_snapshot = heap s' (nextPtr s)\<rparr>]
            else tournament_history r)"
    unfolding r' e s' CreateTurnamentHistory_def id2 up2 using hist2 by simp
  show "e = None \<longleftrightarrow>
           \<not> dbFault env (OpCreateTurnamentHistory (tId ft)) \<and>
           (tId ft, historyNow env (tId ft)) \<notin> set (historyKeys r)"
  proof -
    have mem: "(tId ft, historyNow env (tId ft)) \<in> set (historyKeys r) \<longleftrightarrow>
        (\<exists>row \<in> set (tournament_history r).
            h_tournament_id row = tId ft \<and> h_date row = historyNow env (tId ft))"
      unfolding historyKeys_def by force
    show ?thesis
      unfolding mem e CreateTurnamentHistory_def id2 hist2 by simp
  qed
  show "registrations_tbl r' = upsertPhases (tId ft) (dRegistrationPhases details) (registrations_tbl r)"
    if none: "Registrations ft = []"
      and nf: "\<forall>title. \<not> dbFault env (OpUpsertRegistration (tId ft) title)"
  proof -
    have r1: "registrations_tbl ?r1 = registrations_tbl r"
      unfolding UpsertTournament_def by (simp add: applyDetails_keeps none)
    have "registrations_tbl ?r2 = upsertPhases (tId (heap ?s1 ?p)) (dRegistrationPhases details)
            (registrations_tbl ?r1)"
      by (rule syncPhases_registrations) (simp add: applyDetails_keeps nf)
    then show ?thesis
      unfolding r' r1 CreateTurnamentHistory_def by (simp add: applyDetails_keeps)
  qed
qed

subsection \<open>Stored tournaments only move forward\<close>

lemma syncTournament_cases:
  assumes "syncTournament env (s, r) ft = ((s', r'), e)"
  obtains (unchanged) "\<not> changed s ft" "s' = s" "r' = r" "e = None"
  | (no_details) err where "changed s ft" "detailsOf env (tId ft) = Inl err" "s' = s" "r' = r" "e = Some err"
  | (applied) details where "changed s ft" "detailsOf env (tId ft) = Inr details"
proof (cases "changed s ft")
  case False
  with assms syncTournament_unchanged [of s ft env r] show ?thesis
    by (intro unchanged) simp_all
next
  case True
  show ?thesis
  proof (cases "detailsOf env (tId ft)")
    case (Inl err)
    with True assms syncTournament_no_details [of s ft env err r] show ?thesis
      by (intro no_details [of err]) simp_all
  next
    case (Inr details)
    with True show ?thesis by (rule applied)
  qed
qed

lemma syncTournament_allocated:
  assumes "allocated s" and "syncTournament env (s, r) ft = ((s', r'), e)"
  shows "allocated s'"
  using assms(2)
proof (cases rule: syncTournament_cases)
  case unchanged
  with assms(1) show ?thesis by simp
next
  case (no_details err)
  with assms(1) show ?thesis by simp
next
  case (applied details)
  note st = syncTournament_changed [OF applied assms(2)]
  show ?thesis
    unfolding allocated_def st(1) st(2) using assms(1) unfolding allocated_def
    by (auto simp: less_Suc_eq split: if_splits)
qed

lemma syncTournament_other_id:
  assumes "allocated s" and "syncTournament env (s, r) ft = ((s', r'), e)" and "tId ft \<noteq> i"
  shows "tournaments s' i = tournaments s i" "stored s' i = stored s i" "rowsOf r' i = rowsOf r i"
proof -
  have "tournaments s' i = tournaments s i \<and> stored s' i = stored s i \<and> rowsOf r' i = rowsOf r i"
    using assms(2)
  proof (cases rule: syncTournament_cases)
    case unchanged
    then show ?thesis by simp
  next
    case (no_details err)
    then show ?thesis by simp
  next
    case (applied details)
    note st = syncTournament_changed [OF applied assms(2)]
    have t: "tournaments s' i = tournaments s i" unfolding st(1) using assms(3) by simp
    have "stored s' i = stored s i"
    proof (cases "tournaments s i")
      case None
      with t show ?thesis unfolding stored_def by simp
    next
      case (Some q)
      with assms(1) have "q \<noteq> nextPtr s" unfolding allocated_def by auto
      with st(4) have "heap s' q = heap s q" by simp
      with t Some show ?thesis unfolding stored_def by simp
    qed
    moreover have "rowsOf r' i = rowsOf r i"
      using st(6) assms(3) unfolding sameElsewhere_def by simp
    ultimately show ?thesis using t by simp
  qed
  then show "tournaments s' i = tournaments s i" "stored s' i = stored s i" "rowsOf r' i = rowsOf r i"
    by simp_all
qed

lemma syncTournament_same_id:
  assumes "syncTournament env (s, r) ft = ((s', r'), e)" and "changed s ft"
    and "detailsOf env (tId ft) = Inr details"
  shows "\<exists>t'. stored s' (tId ft) = Some t' \<and> UpdatedAt t' = UpdatedAt ft \<and> tId t' = tId ft"
proof -
  note st = syncTournament_changed [OF assms(2,3,1)]
  show ?thesis
    unfolding stored_def st(1) by (simp add: st(5) applyDetails_keeps)
qed

lemma syncTournament_forward:
  assumes "allocated s" and "syncTournament env (s, r) ft = ((s', r'), e)"
    and "stored s i = Some t"
  shows "\<exists>t'. stored s' i = Some t' \<and> unixNano (UpdatedAt t) \<le> unixNano (UpdatedAt t')"
proof (cases "tId ft = i")
  case False
  from syncTournament_other_id(2) [OF assms(1,2) False] assms(3) show ?thesis by simp
next
  case True
  from assms(2) show ?thesis
  proof (cases rule: syncTournament_cases)
    case unchanged
    with assms(3) show ?thesis by simp
  next
    case (no_details err)
    with assms(3) show ?thesis by simp
  next
    case (applied details)
    from syncTournament_same_id [OF assms(2) applied] obtain t'
      where t': "stored s' i = Some t'" "UpdatedAt t' = UpdatedAt ft"
      unfolding True by blast
    from applied(1) assms(3) have "Before (UpdatedAt t) (UpdatedAt ft)"
      unfolding changed_def True by simp
    with t' show ?thesis unfolding Before_def by simp
  qed
qed

lemma syncTournament_settled:
  assumes "syncTournament env (s, r) ft = ((s', r'), None)"
  shows "\<not> changed s' ft"
  using assms
proof (cases rule: syncTournament_cases)
  case unchanged
  then show ?thesis by simp
next
  case (no_details err)
  then show ?thesis by simp
next
  case (applied details)
  from syncTournament_same_id [OF assms applied] show ?thesis
    unfolding changed_def Before_def by auto
qed

lemma not_changed_forward:
  assumes "\<not> changed s ft"
    and "\<And>t. stored s (tId ft) = Some t \<Longrightarrow>
           \<exists>t'. stored s' (tId ft) = Some t' \<and> unixNano (UpdatedAt t) \<le> unixNano (UpdatedAt t')"
  shows "\<not> changed s' ft"
proof -
  from assms(1) obtain t where t: "stored s (tId ft) = Some t"
    and nb: "\<not> Before (UpdatedAt t) (UpdatedAt ft)"
    unfolding changed_def by (auto split: option.splits)
  from assms(2) [OF t] obtain t' where "stored s' (tId ft) = Some t'"
    "unixNano (UpdatedAt t) \<le> unixNano (UpdatedAt t')" by blast
  with nb show ?thesis unfolding changed_def Before_def by simp
qed

subsection \<open>A cycle\<close>

lemma syncLoop_allocated:
  "allocated s \<Longrightarrow> syncLoop env fts (s, r) = ((s', r'), e) \<Longrightarrow> allocated s'"
proof (induction fts arbitrary: s r)
  case Nil
  then show ?case by simp
next
  case (Cons ft fts)
  obtain s1 r1 e1 where one: "syncTournament env (s, r) ft = ((s1, r1), e1)"
    by (cases "syncTournament env (s, r) ft") auto
  have a1: "allocated s1" by (rule syncTournament_allocated [OF Cons.prems(1) one])
  show ?case
  proof (cases e1)
    case None
    with Cons.prems(2) one have "syncLoop env fts (s1, r1) = ((s', r'), e)" by simp
    from Cons.IH [OF a1 this] show ?thesis .
  next
    case (Some err)
    with Cons.prems(2) one a1 show ?thesis by simp
  qed
qed

lemma syncLoop_forward:
  "allocated s \<Longrightarrow> syncLoop env fts (s, r) = ((s', r'), e) \<Longrightarrow> stored s i = Some t \<Longrightarrow>
   \<exists>t'. stored s' i = Some t' \<and> unixNano (UpdatedAt t) \<le> unixNano (UpdatedAt t')"
proof (induction fts arbitrary: s r t)
  case Nil
  then show ?case by auto
next
  case (Cons ft fts)
  obtain s1 r1 e1 where one: "syncTournament env (s, r) ft = ((s1, r1), e1)"
    by (cases "syncTournament env (s, r) ft") auto
  have a1: "allocated s1" by (rule syncTournament_allocated [OF Cons.prems(1) one])
  from syncTournament_forward [OF Cons.prems(1) one Cons.prems(3)] obtain t1
    where t1: "stored s1 i = Some t1" "unixNano (UpdatedAt t) \<le> unixNano (UpdatedAt t1)" by blast
  show ?case
  proof (cases e1)
    case None
    with Cons.prems(2) one have "syncLoop env fts (s1, r1) = ((s', r'), e)" by simp
    from Cons.IH [OF a1 this t1(1)] t1(2) show ?thesis by force
  next
    case (Some err)
    with Cons.prems(2) one t1 show ?thesis by auto
  qed
qed

lemma syncLoop_untouched:
  "allocated s \<Longrightarrow> syncLoop env fts (s, r) = ((s', r'), e) \<Longrightarrow>
   \<forall>ft \<in> set fts. tId ft = i \<longrightarrow> \<not> changed s ft \<Longrightarrow>
   tournaments s' i = tournaments s i \<and> stored s' i = stored s i \<and> rowsOf r' i = rowsOf r i"
proof (induction fts arbitrary: s r)
  case Nil
  then show ?case by simp
next
  case (Cons ft fts)
  obtain s1 r1 e1 where one: "syncTournament env (s, r) ft = ((s1, r1), e1)"
    by (cases "syncTournament env (s, r) ft") auto
  have a1: "allocated s1" by (rule syncTournament_allocated [OF Cons.prems(1) one])
  have same: "tournaments s1 i = tournaments s i \<and> stored s1 i = stored s i \<and> rowsOf r1 i = rowsOf r i"
  proof (cases "tId ft = i")
    case True
    with Cons.prems(3) have "\<not> changed s ft" by simp
    from syncTournament_unchanged [OF this, of env r] one show ?thesis by simp
  next
    case False
    from syncTournament_other_id [OF Cons.prems(1) one False] show ?thesis by simp
  qed
  have keep: "\<forall>ft \<in> set fts. tId ft = i \<longrightarrow> \<not> changed s1 ft"
    using Cons.prems(3) same unfolding changed_def by simp
  show ?case
  proof (cases e1)
    case None
    with Cons.prems(2) one have "syncLoop env fts (s1, r1) = ((s', r'), e)" by simp
    from Cons.IH [OF a1 this keep] same show ?thesis by simp
  next
    case (Some err)
    with Cons.prems(2) one same show ?thesis by simp
  qed
qed

lemma syncLoop_nothing_changed:
  "\<forall>ft \<in> set fts. \<not> changed s ft \<Longrightarrow> syncLoop env fts (s, r) = ((s, r), None)"
  by (induction fts) (simp_all add: syncTournament_unchanged)

lemma syncLoop_settled:
  "allocated s \<Longrightarrow> syncLoop env fts (s, r) = ((s', r'), None) \<Longrightarrow>
   \<forall>ft \<in> set fts. \<not> changed s' ft"
proof (induction fts arbitrary: s r)
  case Nil
  then show ?case by simp
next
  case (Cons ft fts)
  obtain s1 r1 e1 where one: "syncTournament env (s, r) ft = ((s1, r1), e1)"
    by (cases "syncTournament env (s, r) ft") auto
  with Cons.prems(2) have e1: "e1 = None" and rest: "syncLoop env fts (s1, r1) = ((s', r'), None)"
    by (cases e1; simp)+
  have a1: "allocated s1" by (rule syncTournament_allocated [OF Cons.prems(1) one])
  have "\<not> changed s1 ft" using one unfolding e1 by (rule syncTournament_settled)
  then have "\<not> changed s' ft"
    by (rule not_changed_forward) (rule syncLoop_forward [OF a1 rest])
  with Cons.IH [OF a1 rest] show ?case by simp
qed

lemma Sync_cases:
  assumes "Sync env (s, r) = ((s', r'), e)"
  obtains (no_fetch) err where "fetchResult env = Inl err" "s' = s" "r' = r" "e = Some err"
  | (stopped) m s0 err where "fetchResult env = Inr m"
      "syncLoop env (rangeValues m (rangeOrder env)) (s, r) = ((s0, r'), Some err)"
      "s' = s0" "e = Some err"
  | (finished) m s0 where "fetchResult env = Inr m"
      "syncLoop env (rangeValues m (rangeOrder env)) (s, r) = ((s0, r'), None)"
      "s' = s0\<lparr>lastSync := Some (syncDoneAt env)\<rparr>" "e = None"
proof (cases "fetchResult env")
  case (Inl err)
  with assms show ?thesis unfolding Sync_def by (intro no_fetch [of err]) simp_all
next
  case (Inr m)
  obtain s0 r0 e0 where lp: "syncLoop env (rangeValues m (rangeOrder env)) (s, r) = ((s0, r0), e0)"
    by (cases "syncLoop env (rangeValues m (rangeOrder env)) (s, r)") auto
  show ?thesis
  proof (cases e0)
    case None
    with assms Inr lp show ?thesis unfolding Sync_def by (intro finished [of m s0]) simp_all
  next
    case (Some err)
    with assms Inr lp show ?thesis unfolding Sync_def by (intro stopped [of m s0 err]) simp_all
  qed
qed

lemma stored_lastSync: "stored (s\<lparr>lastSync := x\<rparr>) i = stored s i"
  unfolding stored_def by simp

lemma allocated_lastSync: "allocated (s\<lparr>lastSync := x\<rparr>) = allocated s"
  unfolding allocated_def by simp

lemma Sync_allocated:
  assumes "allocated s" and "Sync env (s, r) = ((s', r'), e)"
  shows "allocated s'"
  using assms(2)
proof (cases rule: Sync_cases)
  case (no_fetch err)
  with assms(1) show ?thesis by simp
next
  case (stopped m s0 err)
  with syncLoop_allocated [OF assms(1) stopped(2)] show ?thesis by simp
next
  case (finished m s0)
  with syncLoop_allocated [OF assms(1) finished(2)] show ?thesis by (simp add: allocated_lastSync)
qed

lemma Sync_forward:
  assumes "allocated s" and "Sync env (s, r) = ((s', r'), e)" and "stored s i = Some t"
  shows "\<exists>t'. stored s' i = Some t' \<and> unixNano (UpdatedAt t) \<le> unixNano (UpdatedAt t')"
  using assms(2)
proof (cases rule: Sync_cases)
  case (no_fetch err)
  with assms(3) show ?thesis by simp
next
  case (stopped m s0 err)
  with syncLoop_forward [OF assms(1) stopped(2) assms(3)] show ?thesis by simp
next
  case (finished m s0)
  with syncLoop_forward [OF assms(1) finished(2) assms(3)] show ?thesis by (simp add: stored_lastSync)
qed

lemma scheduler_allocated:
  "allocated (fst sr) \<Longrightarrow> allocated (fst (scheduler envs sr))"
proof (induction envs arbitrary: sr)
  case Nil
  then show ?case by simp
next
  case (Cons env envs)
  obtain s r where sr: "sr = (s, r)" by (cases sr)
  obtain s' r' e where run: "Sync env (s, r) = ((s', r'), e)"
    by (cases "Sync env (s, r)") auto
  from Cons.prems sr have "allocated s" by simp
  from Sync_allocated [OF this run] have "allocated (fst (fst (Sync env sr)))"
    by (simp add: sr run)
  from Cons.IH [OF this] show ?case by simp
qed

lemma scheduler_forward:
  "allocated (fst sr) \<Longrightarrow> stored (fst sr) i = Some t \<Longrightarrow>
   \<exists>t'. stored (fst (scheduler envs sr)) i = Some t' \<and> unixNano (UpdatedAt t) \<le> unixNano (UpdatedAt t')"
proof (induction envs arbitrary: sr t)
  case Nil
  then show ?case by auto
next
  case (Cons env envs)
  obtain s r where sr: "sr = (s, r)" by (cases sr)
  obtain s' r' e where run: "Sync env (s, r) = ((s', r'), e)"
    by (cases "Sync env (s, r)") auto
  from Cons.prems sr have a: "allocated s" and st: "stored s i = Some t" by simp_all
  from Sync_allocated [OF a run] have a': "allocated (fst (fst (Sync env sr)))"
    by (simp add: sr run)
  from Sync_forward [OF a run st] obtain t1 where
    t1: "stored (fst (fst (Sync env sr))) i = Some t1" "unixNano (UpdatedAt t) \<le> unixNano (UpdatedAt t1)"
    by (auto simp: sr run)
  from Cons.IH [OF a' t1(1)] t1(2) show ?case by force
qed

lemma set_rangeValues: "set (rangeValues m order) = {t. \<exists>k \<in> set order. m k = Some t}"
proof -
  have "set (nonNil xs) = {t. Some t \<in> set xs}" for xs :: "Tournament option list"
    by (induction xs rule: nonNil.induct) auto
  then show ?thesis unfolding rangeValues_def by force
qed

lemma Sync_untouched:
  assumes "allocated s" and "Sync env (s, r) = ((s', r'), e)"
    and "\<forall>m. fetchResult env = Inr m \<longrightarrow>
           (\<forall>ft \<in> set (rangeValues m (rangeOrder env)). tId ft = i \<longrightarrow> \<not> changed s ft)"
  shows "tournaments s' i = tournaments s i \<and> stored s' i = stored s i \<and> rowsOf r' i = rowsOf r i"
  using assms(2)
proof (cases rule: Sync_cases)
  case (no_fetch err)
  then show ?thesis by simp
next
  case (stopped m s0 err)
  with assms(3) have "\<forall>ft \<in> set (rangeValues m (rangeOrder env)). tId ft = i \<longrightarrow> \<not> changed s ft"
    by simp
  from syncLoop_untouched [OF assms(1) stopped(2) this] stopped(3) show ?thesis by simp
next
  case (finished m s0)
  with assms(3) have "\<forall>ft \<in> set (rangeValues m (rangeOrder env)). tId ft = i \<longrightarrow> \<not> changed s ft"
    by simp
  from syncLoop_untouched [OF assms(1) finished(2) this] finished(3) show ?thesis
    by (simp add: stored_lastSync)
qed

lemma Sync_again:
  assumes "allocated s" and "Sync env (s, r) = ((s1, r1), None)"
    and "fetchResult env2 = fetchResult env" and "set (rangeOrder env2) \<subseteq> set (rangeOrder env)"
  shows "Sync env2 (s1, r1) = ((s1\<lparr>lastSync := Some (syncDoneAt env2)\<rparr>, r1), None)"
  using assms(2)
proof (cases rule: Sync_cases)
  case (finished m s0)
  from syncLoop_settled [OF assms(1) finished(2)]
  have "\<forall>ft \<in> set (rangeValues m (rangeOrder env)). \<not> changed s0 ft" .
  moreover have "changed s1 ft = changed s0 ft" for ft
    unfolding changed_def finished(3) stored_lastSync ..
  moreover have "set (rangeValues m (rangeOrder env2)) \<subseteq> set (rangeValues m (rangeOrder env))"
    unfolding set_rangeValues using assms(4) by blast
  ultimately have "\<forall>ft \<in> set (rangeValues m (rangeOrder env2)). \<not> changed s1 ft" by blast
  from syncLoop_nothing_changed [OF this, of env2 r1] show ?thesis
    unfolding Sync_def assms(3) finished(1) by simp
qed simp_all

subsection \<open>The history\<close>

lemma syncTournament_history:
  assumes "syncTournament env (s, r) ft = ((s', r'), e)"
  shows "tournament_history r' = tournament_history r \<or>
         (changed s ft \<and> e = None \<and> (tId ft, historyNow env (tId ft)) \<notin> set (historyKeys r) \<and>
          (\<exists>t'. stored s' (tId ft) = Some t' \<and>
             tournament_history r' = tournament_history r @
               [\<lparr>h_tournament_id = tId ft, h_date = historyNow env (tId ft),
                 h_updated_at = UpdatedAt ft, h_snapshot = t'\<rparr>]))"
  using assms
proof (cases rule: syncTournament_cases)
  case unchanged
  then show ?thesis by simp
next
  case (no_details err)
  then show ?thesis by simp
next
  case (applied details)
  note st = syncTournament_changed [OF applied assms]
  have sto: "stored s' (tId ft) = Some (heap s' (nextPtr s))"
    unfolding stored_def st(1) by simp
  show ?thesis
  proof (cases e)
    case None
    with st(7) st(8) applied(1) sto show ?thesis by simp
  next
    case (Some err)
    with st(7) show ?thesis by simp
  qed
qed

lemma syncTournament_distinct_history:
  assumes "syncTournament env (s, r) ft = ((s', r'), e)" and "distinct (historyKeys r)"
  shows "distinct (historyKeys r')"
  using syncTournament_history [OF assms(1)] assms(2)
  unfolding historyKeys_def by auto

lemma syncLoop_distinct_history:
  "syncLoop env fts (s, r) = ((s', r'), e) \<Longrightarrow> distinct (historyKeys r) \<Longrightarrow>
   distinct (historyKeys r')"
proof (induction fts arbitrary: s r)
  case Nil
  then show ?case by simp
next
  case (Cons ft fts)
  obtain s1 r1 e1 where one: "syncTournament env (s, r) ft = ((s1, r1), e1)"
    by (cases "syncTournament env (s, r) ft") auto
  have d1: "distinct (historyKeys r1)"
    by (rule syncTournament_distinct_history [OF one Cons.prems(2)])
  show ?case
  proof (cases e1)
    case None
    with Cons.prems(1) one have "syncLoop env fts (s1, r1) = ((s', r'), e)" by simp
    from Cons.IH [OF this d1] show ?thesis .
  next
    case (Some err)
    with Cons.prems(1) one d1 show ?thesis by simp
  qed
qed

lemma Sync_distinct_history:
  assumes "Sync env (s, r) = ((s', r'), e)" and "distinct (historyKeys r)"
  shows "distinct (historyKeys r')"
  using assms(1)
proof (cases rule: Sync_cases)
  case (no_fetch err)
  with assms(2) show ?thesis by simp
next
  case (stopped m s0 err)
  from syncLoop_distinct_history [OF stopped(2) assms(2)] show ?thesis .
next
  case (finished m s0)
  from syncLoop_distinct_history [OF finished(2) assms(2)] show ?thesis .
qed

lemma scheduler_distinct_history:
  "distinct (historyKeys (snd sr)) \<Longrightarrow> distinct (historyKeys (snd (scheduler envs sr)))"
proof (induction envs arbitrary: sr)
  case Nil
  then show ?case by simp
next
  case (Cons env envs)
  obtain s r where sr: "sr = (s, r)" by (cases sr)
  obtain s' r' e where run: "Sync env (s, r) = ((s', r'), e)"
    by (cases "Sync env (s, r)") auto
  from Cons.prems sr have "distinct (historyKeys r)" by simp
  from Sync_distinct_history [OF run this] have "distinct (historyKeys (snd (fst (Sync env sr))))"
    by (simp add: sr run)
  from Cons.IH [OF this] show ?case by simp
qed

text \<open>
  Against claim C3 as stated: the two cycles of the example run at 12:00 and at 13:00 of the
  same calendar day, tournament 1 has changed in both, and the history holds two snapshots
  of tournament 1 for that day.
\<close>

theorem history_same_day_counterexample:
  "map (\<lambda>row. (h_tournament_id row, civil (localDay (h_date row)), HourOf (h_date row)))
       (tournament_history (snd exTwoCycles))
     = [(1, (1970, 1, 1), 12), (1, (1970, 1, 1), 13)]"
  by code_simp

text \<open>
  Claim C3, amended. The history never holds two snapshots with the same tournament id and
  the same time of writing. A changed tournament that the loop body gets through without
  error adds exactly one snapshot, stamped with the time of the write, at the end of the
  history. The write goes through whenever the store does not fail and no snapshot of the
  id bears the very same time: so a second change on the same calendar day adds a second
  snapshot.
\<close>

theorem history_one_snapshot_per_write:
  assumes "distinct (historyKeys r)"
  shows "distinct (historyKeys (snd (scheduler envs (s, r)))) \<and>
         (\<forall>s' r'. changed s ft \<longrightarrow> syncTournament env (s, r) ft = ((s', r'), None) \<longrightarrow>
            (\<exists>t'. stored s' (tId ft) = Some t' \<and>
               tournament_history r' = tournament_history r @
                 [\<lparr>h_tournament_id = tId ft, h_date = historyNow env (tId ft),
                   h_updated_at = UpdatedAt ft, h_snapshot = t'\<rparr>])) \<and>
         (\<forall>details. changed s ft \<longrightarrow> detailsOf env (tId ft) = Inr details \<longrightarrow>
            \<not> dbFault env (OpCreateTurnamentHistory (tId ft)) \<longrightarrow>
            (tId ft, historyNow env (tId ft)) \<notin> set (historyKeys r) \<longrightarrow>
            snd (syncTournament env (s, r) ft) = None)"
proof (intro conjI allI impI)
  from scheduler_distinct_history [of "(s, r)" envs] assms
  show "distinct (historyKeys (snd (scheduler envs (s, r))))" by simp
next
  fix s' r'
  assume ch: "changed s ft" and run: "syncTournament env (s, r) ft = ((s', r'), None)"
  from run show "\<exists>t'. stored s' (tId ft) = Some t' \<and>
               tournament_history r' = tournament_history r @
                 [\<lparr>h_tournament_id = tId ft, h_date = historyNow env (tId ft),
                   h_updated_at = UpdatedAt ft, h_snapshot = t'\<rparr>]"
  proof (cases rule: syncTournament_cases)
    case unchanged
    with ch show ?thesis by simp
  next
    case (applied details)
    note st = syncTournament_changed [OF applied run]
    have "stored s' (tId ft) = Some (heap s' (nextPtr s))"
      unfolding stored_def st(1) by simp
    with st(7) show ?thesis by simp
  next
    case (no_details err)
    then show ?thesis by simp
  qed
next
  fix details
  assume ch: "changed s ft" and det: "detailsOf env (tId ft) = Inr details"
    and nf: "\<not> dbFault env (OpCreateTurnamentHistory (tId ft))"
    and fresh: "(tId ft, historyNow env (tId ft)) \<notin> set (historyKeys r)"
  obtain s' r' e where run: "syncTournament env (s, r) ft = ((s', r'), e)"
    by (cases "syncTournament env (s, r) ft") auto
  from syncTournament_changed(8) [OF ch det run] nf fresh have "e = None" by simp
  with run show "snd (syncTournament env (s, r) ft) = None" by simp
qed

text \<open>
  The example: the second cycle finds tournament 1 changed and writes its snapshot at 13:00,
  a time no snapshot of the id bears yet.
\<close>

lemma ex_history_distinct: "distinct (historyKeys (snd exAfterFirst))"
  by code_simp

lemma ex_changed: "changed (fst exAfterFirst) (exFetched 200)"
  by code_simp

lemma ex_history_fresh:
  "(tId (exFetched 200), historyNow (exSyncEnv 200 ''Late'' 13) (tId (exFetched 200)))
     \<notin> set (historyKeys (snd exAfterFirst))"
  by code_simp

theorem history_one_snapshot_per_write_witness:
  "distinct (historyKeys (snd exAfterFirst)) \<and>
   changed (fst exAfterFirst) (exFetched 200) \<and>
   detailsOf (exSyncEnv 200 ''Late'' 13) (tId (exFetched 200)) = Inr (exDetails ''Late'') \<and>
   \<not> dbFault (exSyncEnv 200 ''Late'' 13) (OpCreateTurnamentHistory (tId (exFetched 200))) \<and>
   (tId (exFetched 200), historyNow (exSyncEnv 200 ''Late'' 13) (tId (exFetched 200)))
     \<notin> set (historyKeys (snd exAfterFirst)) \<and>
   snd (syncTournament (exSyncEnv 200 ''Late'' 13) (fst exAfterFirst, snd exAfterFirst) (exFetched 200))
     = None \<and>
   (\<exists>t'. tournament_history (snd (fst (syncTournament (exSyncEnv 200 ''Late'' 13)
              (fst exAfterFirst, snd exAfterFirst) (exFetched 200))))
          = tournament_history (snd exAfterFirst) @
              [\<lparr>h_tournament_id = tId (exFetched 200),
                h_date = historyNow (exSyncEnv 200 ''Late'' 13) (tId (exFetched 200)),
                h_updated_at = UpdatedAt (exFetched 200), h_snapshot = t'\<rparr>]) \<and>
   distinct (historyKeys (snd exTwoCycles))"
proof -
  let ?env = "exSyncEnv 200 ''Late'' 13"
  let ?res = "syncTournament ?env (fst exAfterFirst, snd exAfterFirst) (exFetched 200)"
  note inst = history_one_snapshot_per_write [OF ex_history_distinct,
      of "[?env]" "fst exAfterFirst" "exFetched 200" ?env]
  have det: "detailsOf ?env (tId (exFetched 200)) = Inr (exDetails ''Late'')"
    unfolding exSyncEnv_def by simp
  have nf: "\<not> dbFault ?env (OpCreateTurnamentHistory (tId (exFetched 200)))"
    unfolding exSyncEnv_def noFault_def by simp
  from inst ex_changed det nf ex_history_fresh have ok: "snd ?res = None" by blast
  then have res: "?res = ((fst (fst ?res), snd (fst ?res)), None)"
    by (cases ?res) auto
  from inst ex_changed res have app:
    "\<exists>t'. stored (fst (fst ?res)) (tId (exFetched 200)) = Some t' \<and>
       tournament_history (snd (fst ?res)) = tournament_history (snd exAfterFirst) @
         [\<lparr>h_tournament_id = tId (exFetched 200),
           h_date = historyNow ?env (tId (exFetched 200)),
           h_updated_at = UpdatedAt (exFetched 200), h_snapshot = t'\<rparr>]" by blast
  have two: "scheduler [?env] (fst exAfterFirst, snd exAfterFirst) = exTwoCycles"
    unfolding exAfterFirst_def exTwoCycles_def by simp
  from inst have "distinct (historyKeys (snd exTwoCycles))" unfolding two by blast
  with ex_history_distinct ex_changed det nf ex_history_fresh ok app show ?thesis by blast
qed

subsection \<open>Registration phases\<close>

lemma upsertRegistrationRow_keys:
  "map (\<lambda>row. (reg_id row, reg_title row)) (upsertRegistrationRow new rows) =
     (if (reg_id new, reg_title new) \<in> set (map (\<lambda>row. (reg_id row, reg_title row)) rows)
      then map (\<lambda>row. (reg_id row, reg_title row)) rows
      else map (\<lambda>row. (reg_id row, reg_title row)) rows @ [(reg_id new, reg_title new)])"
proof -
  have m: "(reg_id new, reg_title new) \<in> set (map (\<lambda>row. (reg_id row, reg_title row)) rows) \<longleftrightarrow>
     (\<exists>row \<in> set rows. reg_id row = reg_id new \<and> reg_title row = reg_title new)"
    by (induction rows) auto
  have "map (\<lambda>row. (reg_id row, reg_title row))
          (map (\<lambda>row. if reg_id row = reg_id new \<and> reg_title row = reg_title new then new else row) rows)
        = map (\<lambda>row. (reg_id row, reg_title row)) rows"
    by (induction rows) auto
  then show ?thesis unfolding m upsertRegistrationRow_def by simp
qed

lemma upsertRegistrationRow_keeps:
  "row \<in> set rows \<Longrightarrow> reg_id row \<noteq> reg_id new \<or> reg_title row \<noteq> reg_title new \<Longrightarrow>
   row \<in> set (upsertRegistrationRow new rows)"
  unfolding upsertRegistrationRow_def by auto

lemma upsertRegistrationRow_has_new:
  "distinct (map (\<lambda>row. (reg_id row, reg_title row)) rows) \<Longrightarrow>
   new \<in> set (upsertRegistrationRow new rows)"
  unfolding upsertRegistrationRow_def by auto

lemma upsertRegistrationRow_has_key:
  "\<exists>row \<in> set (upsertRegistrationRow new rows). reg_id row = reg_id new \<and> reg_title row = reg_title new"
  unfolding upsertRegistrationRow_def by auto

lemma upsertPhases_Cons:
  "upsertPhases i (ph # phases) rows = upsertPhases i phases (upsertRegistrationRow (rowOfPhase i ph) rows)"
  unfolding upsertPhases_def by simp

lemma upsertPhases_Nil: "upsertPhases i [] rows = rows"
  unfolding upsertPhases_def by simp

lemma upsertPhases_keys_prefix:
  "\<exists>more. map (\<lambda>row. (reg_id row, reg_title row)) (upsertPhases i phases rows)
           = map (\<lambda>row. (reg_id row, reg_title row)) rows @ more"
proof (induction phases arbitrary: rows)
  case Nil
  show ?case by (simp add: upsertPhases_Nil)
next
  case (Cons ph phases)
  from Cons.IH [of "upsertRegistrationRow (rowOfPhase i ph) rows"]
  show ?case
    unfolding upsertPhases_Cons upsertRegistrationRow_keys by (auto split: if_splits)
qed

lemma upsertPhases_distinct:
  "distinct (map (\<lambda>row. (reg_id row, reg_title row)) rows) \<Longrightarrow>
   distinct (map (\<lambda>row. (reg_id row, reg_title row)) (upsertPhases i phases rows))"
proof (induction phases arbitrary: rows)
  case Nil
  then show ?case by (simp add: upsertPhases_Nil)
next
  case (Cons ph phases)
  have "distinct (map (\<lambda>row. (reg_id row, reg_title row)) (upsertRegistrationRow (rowOfPhase i ph) rows))"
    unfolding upsertRegistrationRow_keys using Cons.prems by simp
  from Cons.IH [OF this] show ?case unfolding upsertPhases_Cons .
qed

lemma upsertPhases_keeps:
  "row \<in> set rows \<Longrightarrow> reg_id row \<noteq> i \<or> reg_title row \<notin> pName ` set phases \<Longrightarrow>
   row \<in> set (upsertPhases i phases rows)"
proof (induction phases arbitrary: rows)
  case Nil
  then show ?case by (simp add: upsertPhases_Nil)
next
  case (Cons ph phases)
  have "row \<in> set (upsertRegistrationRow (rowOfPhase i ph) rows)"
    using Cons.prems by (intro upsertRegistrationRow_keeps) (auto simp: rowOfPhase_def)
  moreover have "reg_id row \<noteq> i \<or> reg_title row \<notin> pName ` set phases"
    using Cons.prems(2) by auto
  ultimately show ?case unfolding upsertPhases_Cons by (rule Cons.IH)
qed

lemma upsertPhases_key_stays:
  "(k, n) \<in> set (map (\<lambda>row. (reg_id row, reg_title row)) rows) \<Longrightarrow>
   (k, n) \<in> set (map (\<lambda>row. (reg_id row, reg_title row)) (upsertPhases i phases rows))"
proof -
  assume a: "(k, n) \<in> set (map (\<lambda>row. (reg_id row, reg_title row)) rows)"
  from upsertPhases_keys_prefix [of i phases rows] obtain more where
    e: "map (\<lambda>row. (reg_id row, reg_title row)) (upsertPhases i phases rows)
           = map (\<lambda>row. (reg_id row, reg_title row)) rows @ more" by blast
  from a have "(k, n) \<in> set (map (\<lambda>row. (reg_id row, reg_title row)) rows @ more)" by simp
  then show ?thesis unfolding e [symmetric] .
qed

lemma upsertPhases_has_phase:
  "ph \<in> set phases \<Longrightarrow>
   (i, pName ph) \<in> set (map (\<lambda>row. (reg_id row, reg_title row)) (upsertPhases i phases rows))"
proof (induction phases arbitrary: rows)
  case Nil
  then show ?case by simp
next
  case (Cons ph' phases)
  show ?case
  proof (cases "ph = ph'")
    case True
    have "(i, pName ph) \<in> set (map (\<lambda>row. (reg_id row, reg_title row))
              (upsertRegistrationRow (rowOfPhase i ph) rows))"
      unfolding upsertRegistrationRow_keys by (simp add: rowOfPhase_def)
    then show ?thesis unfolding upsertPhases_Cons True [symmetric]
      by (rule upsertPhases_key_stays)
  next
    case False
    with Cons.prems have "ph \<in> set phases" by simp
    then show ?thesis unfolding upsertPhases_Cons by (rule Cons.IH)
  qed
qed

lemma upsertPhases_has_row:
  "distinct (map pName phases) \<Longrightarrow> distinct (map (\<lambda>row. (reg_id row, reg_title row)) rows) \<Longrightarrow>
   ph \<in> set phases \<Longrightarrow> rowOfPhase i ph \<in> set (upsertPhases i phases rows)"
proof (induction phases arbitrary: rows)
  case Nil
  then show ?case by simp
next
  case (Cons ph' phases)
  let ?rows' = "upsertRegistrationRow (rowOfPhase i ph') rows"
  have d': "distinct (map (\<lambda>row. (reg_id row, reg_title row)) ?rows')"
    unfolding upsertRegistrationRow_keys using Cons.prems(2) by simp
  show ?case
  proof (cases "ph = ph'")
    case True
    have "rowOfPhase i ph \<in> set ?rows'"
      unfolding True by (rule upsertRegistrationRow_has_new [OF Cons.prems(2)])
    moreover have "reg_id (rowOfPhase i ph) \<noteq> i \<or> reg_title (rowOfPhase i ph) \<notin> pName ` set phases"
      using Cons.prems(1) unfolding True by (simp add: rowOfPhase_def)
    ultimately show ?thesis unfolding upsertPhases_Cons by (rule upsertPhases_keeps)
  next
    case False
    with Cons.prems have "distinct (map pName phases)" "ph \<in> set phases" by simp_all
    from Cons.IH [OF this(1) d' this(2)] show ?thesis unfolding upsertPhases_Cons .
  qed
qed

text \<open>
  Against claim C9 as stated: the first cycle of the example stores the phase Early of
  tournament 1; in the second cycle the tournament has changed and its detail page shows the
  phase Late alone. Afterwards the store holds Early and Late for the tournament, while the
  record in memory holds Late.
\<close>

theorem stale_phase_counterexample:
  "map pName (dRegistrationPhases (exDetails ''Late'')) = [''Late''] \<and>
   map rTitle (getRegistrations (snd exTwoCycles) 1) = [''Early'', ''Late''] \<and>
   map_option (\<lambda>t. map rTitle (Registrations t)) (stored (fst exTwoCycles) 1) = Some [''Late'']"
  by code_simp

text \<open>
  Claim C9, amended. When a changed tournament, fetched without registrations, has gone
  through the loop body without error and the store took the upserts, the record in memory
  holds exactly the freshly parsed phases, in order. The registrations table is the old one
  after the upserts of the phases, one by one: every parsed phase has a row under its key
  (tournament id, name), and with names that differ each row carries its phase's dates; the
  keys that were there stay where they were, so a stored name is rewritten in place and new
  names are added at the end; no key occurs twice if none did before; and every stored row
  of another tournament, or of a name that the parse does not have, is still there.
\<close>

theorem Sync_upserts_phases:
  assumes "changed s ft" and "syncTournament env (s, r) ft = ((s', r'), None)"
    and "Registrations ft = []"
    and "\<forall>title. \<not> dbFault env (OpUpsertRegistration (tId ft) title)"
  shows "\<exists>details t'.
           detailsOf env (tId ft) = Inr details \<and> stored s' (tId ft) = Some t' \<and>
           Registrations t' = map registrationOf (dRegistrationPhases details) \<and>
           registrations_tbl r' = upsertPhases (tId ft) (dRegistrationPhases details) (registrations_tbl r) \<and>
           (\<forall>ph \<in> set (dRegistrationPhases details). (tId ft, pName ph) \<in> set (registrationKeys r')) \<and>
           (distinct (map pName (dRegistrationPhases details)) \<longrightarrow> distinct (registrationKeys r) \<longrightarrow>
              (\<forall>ph \<in> set (dRegistrationPhases details). rowOfPhase (tId ft) ph \<in> set (registrations_tbl r'))) \<and>
           (\<forall>row \<in> set (registrations_tbl r).
              reg_id row \<noteq> tId ft \<or> reg_title row \<notin> pName ` set (dRegistrationPhases details) \<longrightarrow>
              row \<in> set (registrations_tbl r')) \<and>
           (\<exists>more. registrationKeys r' = registrationKeys r @ more) \<and>
           (distinct (registrationKeys r) \<longrightarrow> distinct (registrationKeys r'))"
  using assms(2)
proof (cases rule: syncTournament_cases)
  case unchanged
  with assms(1) show ?thesis by simp
next
  case (no_details err)
  then show ?thesis by simp
next
  case (applied details)
  note st = syncTournament_changed [OF applied assms(2)]
  let ?phases = "dRegistrationPhases details"
  have sto: "stored s' (tId ft) = Some (heap s' (nextPtr s))"
    unfolding stored_def st(1) by simp
  have regs: "Registrations (heap s' (nextPtr s)) = map registrationOf ?phases"
    unfolding st(5) by (simp add: assms(3))
  have tbl: "registrations_tbl r' = upsertPhases (tId ft) ?phases (registrations_tbl r)"
    by (rule st(9) [OF assms(3,4)])
  have a: "\<forall>ph \<in> set ?phases. (tId ft, pName ph) \<in> set (registrationKeys r')"
    unfolding registrationKeys_def tbl using upsertPhases_has_phase by blast
  have b: "distinct (map pName ?phases) \<longrightarrow> distinct (registrationKeys r) \<longrightarrow>
              (\<forall>ph \<in> set ?phases. rowOfPhase (tId ft) ph \<in> set (registrations_tbl r'))"
    unfolding registrationKeys_def tbl using upsertPhases_has_row by blast
  have c: "\<forall>row \<in> set (registrations_tbl r).
              reg_id row \<noteq> tId ft \<or> reg_title row \<notin> pName ` set ?phases \<longrightarrow>
              row \<in> set (registrations_tbl r')"
    unfolding tbl using upsertPhases_keeps by blast
  have d: "\<exists>more. registrationKeys r' = registrationKeys r @ more"
    unfolding registrationKeys_def tbl by (rule upsertPhases_keys_prefix)
  have e: "distinct (registrationKeys r) \<longrightarrow> distinct (registrationKeys r')"
    unfolding registrationKeys_def tbl using upsertPhases_distinct by blast
  from applied(2) sto regs tbl a b c d e show ?thesis by blast
qed

text \<open>The second cycle of the example.\<close>

lemma ex_second_ok:
  "snd (syncTournament (exSyncEnv 200 ''Late'' 13) (fst exAfterFirst, snd exAfterFirst) (exFetched 200)) = None"
  by code_simp

lemma ex_second_rows:
  "map (\<lambda>row. (reg_id row, reg_title row)) (registrations_tbl (snd exAfterFirst)) = [(1, ''Early'')] \<and>
   map (\<lambda>row. (reg_id row, reg_title row))
     (registrations_tbl (snd (fst (syncTournament (exSyncEnv 200 ''Late'' 13)
        (fst exAfterFirst, snd exAfterFirst) (exFetched 200))))) = [(1, ''Early''), (1, ''Late'')]"
  by code_simp

theorem Sync_upserts_phases_witness:
  "changed (fst exAfterFirst) (exFetched 200) \<and>
   syncTournament (exSyncEnv 200 ''Late'' 13) (fst exAfterFirst, snd exAfterFirst) (exFetched 200)
     = ((fst (fst (syncTournament (exSyncEnv 200 ''Late'' 13) (fst exAfterFirst, snd exAfterFirst) (exFetched 200))),
         snd (fst (syncTournament (exSyncEnv 200 ''Late'' 13) (fst exAfterFirst, snd exAfterFirst) (exFetched 200)))),
        None) \<and>
   Registrations (exFetched 200) = [] \<and>
   map (\<lambda>row. (reg_id row, reg_title row)) (registrations_tbl (snd exAfterFirst)) = [(1, ''Early'')] \<and>
   map (\<lambda>row. (reg_id row, reg_title row))
     (registrations_tbl (snd (fst (syncTournament (exSyncEnv 200 ''Late'' 13)
        (fst exAfterFirst, snd exAfterFirst) (exFetched 200))))) = [(1, ''Early''), (1, ''Late'')] \<and>
   (\<exists>t'. stored (fst (fst (syncTournament (exSyncEnv 200 ''Late'' 13)
              (fst exAfterFirst, snd exAfterFirst) (exFetched 200)))) (tId (exFetched 200)) = Some t' \<and>
         Registrations t' = map registrationOf (dRegistrationPhases (exDetails ''Late'')))"
proof -
  let ?env = "exSyncEnv 200 ''Late'' 13"
  let ?res = "syncTournament ?env (fst exAfterFirst, snd exAfterFirst) (exFetched 200)"
  have run: "?res = ((fst (fst ?res), snd (fst ?res)), None)"
    using ex_second_ok by (cases ?res) auto
  have none: "Registrations (exFetched 200) = []"
    unfolding exFetched_def zeroTournament_def by simp
  have nf: "\<forall>title. \<not> dbFault ?env (OpUpsertRegistration (tId (exFetched 200)) title)"
    unfolding exSyncEnv_def noFault_def by simp
  have det: "detailsOf ?env (tId (exFetched 200)) = Inr (exDetails ''Late'')"
    unfolding exSyncEnv_def by simp
  from Sync_upserts_phases [OF ex_changed run none nf] obtain details t' where
    "detailsOf ?env (tId (exFetched 200)) = Inr details"
    "stored (fst (fst ?res)) (tId (exFetched 200)) = Some t'"
    "Registrations t' = map registrationOf (dRegistrationPhases details)" by blast
  with det have "\<exists>t'. stored (fst (fst ?res)) (tId (exFetched 200)) = Some t' \<and>
         Registrations t' = map registrationOf (dRegistrationPhases (exDetails ''Late''))" by auto
  with ex_changed run none ex_second_rows show ?thesis by blast
qed

subsection \<open>The map is keyed by id\<close>

lemma syncTournament_keyedById:
  assumes "allocated s" and "keyedById s" and "syncTournament env (s, r) ft = ((s', r'), e)"
  shows "keyedById s'"
  using assms(3)
proof (cases rule: syncTournament_cases)
  case unchanged
  with assms(2) show ?thesis by simp
next
  case (no_details err)
  with assms(2) show ?thesis by simp
next
  case (applied details)
  note st = syncTournament_changed [OF applied assms(3)]
  show ?thesis
    unfolding keyedById_def
  proof (intro allI impI)
    fix k p assume kp: "tournaments s' k = Some p"
    show "tId (heap s' p) = k"
    proof (cases "k = tId ft")
      case True
      with kp have "p = nextPtr s" unfolding st(1) by simp
      then show ?thesis unfolding True by (simp add: st(5) applyDetails_keeps)
    next
      case False
      with kp have old: "tournaments s k = Some p" unfolding st(1) by simp
      with assms(1) have "p \<noteq> nextPtr s" unfolding allocated_def by auto
      with st(4) have "heap s' p = heap s p" by simp
      with old assms(2) show ?thesis unfolding keyedById_def by simp
    qed
  qed
qed

lemma syncLoop_keyedById:
  "allocated s \<Longrightarrow> keyedById s \<Longrightarrow> syncLoop env fts (s, r) = ((s', r'), e) \<Longrightarrow> keyedById s'"
proof (induction fts arbitrary: s r)
  case Nil
  then show ?case by simp
next
  case (Cons ft fts)
  obtain s1 r1 e1 where one: "syncTournament env (s, r) ft = ((s1, r1), e1)"
    by (cases "syncTournament env (s, r) ft") auto
  have a1: "allocated s1" by (rule syncTournament_allocated [OF Cons.prems(1) one])
  have k1: "keyedById s1" by (rule syncTournament_keyedById [OF Cons.prems(1,2) one])
  show ?case
  proof (cases e1)
    case None
    with Cons.prems(3) one have "syncLoop env fts (s1, r1) = ((s', r'), e)" by simp
    from Cons.IH [OF a1 k1 this] show ?thesis .
  next
    case (Some err)
    with Cons.prems(3) one k1 show ?thesis by simp
  qed
qed

lemma keyedById_lastSync: "keyedById (s\<lparr>lastSync := x\<rparr>) = keyedById s"
  unfolding keyedById_def by simp

lemma Sync_keyedById:
  assumes "allocated s" and "keyedById s" and "Sync env (s, r) = ((s', r'), e)"
  shows "keyedById s'"
  using assms(3)
proof (cases rule: Sync_cases)
  case (no_fetch err)
  with assms(2) show ?thesis by simp
next
  case (stopped m s0 err)
  with syncLoop_keyedById [OF assms(1,2) stopped(2)] show ?thesis by simp
next
  case (finished m s0)
  with syncLoop_keyedById [OF assms(1,2) finished(2)] show ?thesis
    by (simp add: keyedById_lastSync)
qed

lemma scheduler_keyedById:
  "allocated (fst sr) \<Longrightarrow> keyedById (fst sr) \<Longrightarrow> keyedById (fst (scheduler envs sr))"
proof (induction envs arbitrary: sr)
  case Nil
  then show ?case by simp
next
  case (Cons env envs)
  obtain s r where sr: "sr = (s, r)" by (cases sr)
  obtain s' r' e where run: "Sync env (s, r) = ((s', r'), e)"
    by (cases "Sync env (s, r)") auto
  from Cons.prems sr have a: "allocated s" and k: "keyedById s" by simp_all
  have "allocated (fst (fst (Sync env sr)))"
    using Sync_allocated [OF a run] by (simp add: sr run)
  moreover have "keyedById (fst (fst (Sync env sr)))"
    using Sync_keyedById [OF a k run] by (simp add: sr run)
  ultimately show ?case using Cons.IH by simp
qed

lemma loadAll_invariants:
  "allocated s \<Longrightarrow> keyedById s \<Longrightarrow> allocated (loadAll t s) \<and> keyedById (loadAll t s)"
proof (induction t arbitrary: s)
  case Nil
  then show ?case by simp
next
  case (Cons tt t)
  let ?s' = "s\<lparr>heap := (heap s)(nextPtr s := tt),
                tournaments := (tournaments s)(tId tt \<mapsto> nextPtr s),
                nextPtr := Suc (nextPtr s)\<rparr>"
  have a: "allocated ?s'"
    using Cons.prems(1) unfolding allocated_def by (auto simp: less_Suc_eq)
  have k: "keyedById ?s'"
    using Cons.prems unfolding keyedById_def allocated_def by auto
  from Cons.IH [OF a k] show ?case by simp
qed

text \<open>
  The service starts with its map allocated and keyed by id, and every run of cycles keeps
  it so: the hypotheses on the service that the properties of feed generation and of the
  sync engine make hold in every state the program reaches.
\<close>

lemma service_invariants:
  "allocated (fst (scheduler envs (fst (NewTournamentService fault r), r'))) \<and>
   keyedById (fst (scheduler envs (fst (NewTournamentService fault r), r')))"
proof -
  have e: "allocated emptyService \<and> keyedById emptyService"
    unfolding allocated_def keyedById_def emptyService_def by simp
  have "allocated (fst (NewTournamentService fault r)) \<and> keyedById (fst (NewTournamentService fault r))"
    unfolding NewTournamentService_def using e loadAll_invariants [of emptyService]
    by (auto split: sum.splits)
  then show ?thesis
    using scheduler_allocated [of "(fst (NewTournamentService fault r), r')" envs]
      scheduler_keyedById [of "(fst (NewTournamentService fault r), r')" envs] by simp
qed

subsection \<open>The stored rows move forward too\<close>

lemma UpsertRegistration_tournaments_tbl:
  "tournaments_tbl (fst (UpsertRegistration fault r k reg)) = tournaments_tbl r"
  unfolding UpsertRegistration_def by simp

lemma upsertRegistrations_tournaments_tbl:
  "tournaments_tbl (fst (upsertRegistrations fault r k regs)) = tournaments_tbl r"
proof (induction regs arbitrary: r)
  case Nil
  show ?case by simp
next
  case (Cons reg regs)
  obtain r' e where u: "UpsertRegistration fault r k reg = (r', e)"
    by (cases "UpsertRegistration fault r k reg")
  have one: "tournaments_tbl r' = tournaments_tbl r"
    using UpsertRegistration_tournaments_tbl [of fault r k reg] by (simp add: u)
  show ?case by (cases e) (simp_all add: u one Cons.IH)
qed

lemma syncPhases_tournaments_tbl:
  "tournaments_tbl (snd (syncPhases fault phases p (s, r))) = tournaments_tbl r"
  by (induction phases arbitrary: s r) (simp_all add: Let_def UpsertRegistration_tournaments_tbl)

lemma UpsertTournament_tournaments_tbl:
  "tournaments_tbl (fst (UpsertTournament fault r t)) =
     (if fault (OpUpsertTournament (tId t)) then tournaments_tbl r
      else upsertTournamentRow (rowOfTournament t) (tournaments_tbl r))"
  unfolding UpsertTournament_def by (simp add: upsertRegistrations_tournaments_tbl)

lemma upsertTournamentRow_ids:
  "map col_id (upsertTournamentRow new rows) =
     (if col_id new \<in> set (map col_id rows) then map col_id rows else map col_id rows @ [col_id new])"
proof -
  have m: "col_id new \<in> set (map col_id rows) \<longleftrightarrow> (\<exists>row \<in> set rows. col_id row = col_id new)"
    by (induction rows) auto
  have "map col_id (map (\<lambda>row. if col_id row = col_id new then new else row) rows) = map col_id rows"
    by (induction rows) auto
  then show ?thesis unfolding m upsertTournamentRow_def by simp
qed

lemma upsertTournamentRow_member:
  "row' \<in> set (upsertTournamentRow new rows) \<Longrightarrow>
   row' = new \<or> (row' \<in> set rows \<and> col_id row' \<noteq> col_id new)"
  unfolding upsertTournamentRow_def by (auto split: if_splits)

lemma syncTournament_tournaments_tbl:
  assumes "changed s ft" and "detailsOf env (tId ft) = Inr details"
    and "syncTournament env (s, r) ft = ((s', r'), e)"
  shows "tournaments_tbl r' =
           (if dbFault env (OpUpsertTournament (tId ft)) then tournaments_tbl r
            else upsertTournamentRow (rowOfTournament (applyDetails ft details)) (tournaments_tbl r))"
proof -
  let ?p = "nextPtr s"
  let ?s1 = "s\<lparr>heap := (heap s)(?p := applyDetails ft details), nextPtr := Suc ?p,
                tournaments := (tournaments s)(tId ft \<mapsto> ?p)\<rparr>"
  let ?r1 = "fst (UpsertTournament (dbFault env) r (heap ?s1 ?p))"
  let ?sp = "syncPhases (dbFault env) (dRegistrationPhases details) ?p (?s1, ?r1)"
  let ?h = "CreateTurnamentHistory (dbFault env) (historyNow env (tId (heap (fst ?sp) ?p))) (snd ?sp)
              (heap (fst ?sp) ?p)"
  from assms have "r' = fst ?h"
    unfolding syncTournament_def changed_iff
    by (cases ?sp; cases ?h) (auto simp: Let_def split: option.splits)
  then have "tournaments_tbl r' = tournaments_tbl ?r1"
    unfolding CreateTurnamentHistory_def by (simp add: syncPhases_tournaments_tbl)
  then show ?thesis
    by (simp add: UpsertTournament_tournaments_tbl applyDetails_keeps)
qed

text \<open>
  From a state in which the store is not ahead of the map and holds one row per tournament
  id, one loop body leads to such a state again, and every row that was there has a row of
  its id afterwards whose time of change is not before its own.
\<close>

lemma syncTournament_store_forward:
  assumes a: "allocated s" and b: "storeBehind s r" and d: "distinct (map col_id (tournaments_tbl r))"
    and run: "syncTournament env (s, r) ft = ((s', r'), e)"
  shows "storeBehind s' r' \<and> distinct (map col_id (tournaments_tbl r')) \<and>
         (\<forall>row \<in> set (tournaments_tbl r). \<exists>row' \<in> set (tournaments_tbl r').
             col_id row' = col_id row \<and>
             unixNano (col_updated_at row) \<le> unixNano (col_updated_at row'))"
  using run
proof (cases rule: syncTournament_cases)
  case unchanged
  with b d show ?thesis by auto
next
  case (no_details err)
  with b d show ?thesis by auto
next
  case (applied details)
  note st = syncTournament_changed [OF applied run]
  note tbl = syncTournament_tournaments_tbl [OF applied run]
  let ?new = "rowOfTournament (applyDetails ft details)"
  have new: "col_id ?new = tId ft" "col_updated_at ?new = UpdatedAt ft"
    unfolding rowOfTournament_def by (simp_all add: applyDetails_keeps)
  obtain t' where t': "stored s' (tId ft) = Some t'" "UpdatedAt t' = UpdatedAt ft"
    using syncTournament_same_id [OF run applied] by blast
  have fwd: "\<exists>t'. stored s' i = Some t' \<and> unixNano (UpdatedAt t) \<le> unixNano (UpdatedAt t')"
    if "stored s i = Some t" for i t
    using syncTournament_forward [OF a run that] .
  have mem: "row' = ?new \<or> row' \<in> set (tournaments_tbl r)" if "row' \<in> set (tournaments_tbl r')" for row'
    using that upsertTournamentRow_member [of row' ?new "tournaments_tbl r"]
    unfolding tbl by (auto split: if_splits)
  have behind: "storeBehind s' r'"
    unfolding storeBehind_def
  proof
    fix row' assume "row' \<in> set (tournaments_tbl r')"
    from mem [OF this] show "\<exists>t. stored s' (col_id row') = Some t \<and>
        unixNano (col_updated_at row') \<le> unixNano (UpdatedAt t)"
    proof
      assume "row' = ?new"
      with t' new show ?thesis by simp
    next
      assume "row' \<in> set (tournaments_tbl r)"
      with b obtain t where "stored s (col_id row') = Some t"
        "unixNano (col_updated_at row') \<le> unixNano (UpdatedAt t)"
        unfolding storeBehind_def by blast
      with fwd [of "col_id row'" t] show ?thesis by force
    qed
  qed
  have "distinct (map col_id (upsertTournamentRow ?new (tournaments_tbl r)))"
    unfolding upsertTournamentRow_ids using d by simp
  then have dist: "distinct (map col_id (tournaments_tbl r'))"
    unfolding tbl using d by simp
  have keep: "\<exists>row' \<in> set (tournaments_tbl r').
             col_id row' = col_id row \<and>
             unixNano (col_updated_at row) \<le> unixNano (col_updated_at row')"
    if row: "row \<in> set (tournaments_tbl r)" for row
  proof (cases "dbFault env (OpUpsertTournament (tId ft)) \<or> col_id row \<noteq> tId ft")
    case True
    then have "row \<in> set (tournaments_tbl r')"
      unfolding tbl upsertTournamentRow_def using row by (auto simp: new)
    then show ?thesis by auto
  next
    case False
    then have nf: "\<not> dbFault env (OpUpsertTournament (tId ft))" and id: "col_id row = tId ft"
      by simp_all
    from row id have "?new \<in> set (tournaments_tbl r')"
      unfolding tbl upsertTournamentRow_def by (auto simp: nf new)
    moreover from b row obtain t where t: "stored s (tId ft) = Some t"
      "unixNano (col_updated_at row) \<le> unixNano (UpdatedAt t)"
      unfolding storeBehind_def id [symmetric] by blast
    from applied(1) t(1) have "unixNano (UpdatedAt t) < unixNano (UpdatedAt ft)"
      unfolding changed_def Before_def by simp
    with t(2) have "unixNano (col_updated_at row) \<le> unixNano (col_updated_at ?new)"
      unfolding new by simp
    ultimately show ?thesis using id new(1) by auto
  qed
  from behind dist keep show ?thesis by blast
qed


lemma syncLoop_store_forward:
  "allocated s \<Longrightarrow> storeBehind s r \<Longrightarrow> distinct (map col_id (tournaments_tbl r)) \<Longrightarrow>
   syncLoop env fts (s, r) = ((s', r'), e) \<Longrightarrow>
   storeBehind s' r' \<and> distinct (map col_id (tournaments_tbl r')) \<and>
   (\<forall>row \<in> set (tournaments_tbl r). \<exists>row' \<in> set (tournaments_tbl r').
       col_id row' = col_id row \<and>
       unixNano (col_updated_at row) \<le> unixNano (col_updated_at row'))"
proof (induction fts arbitrary: s r)
  case Nil
  then show ?case by auto
next
  case (Cons ft fts)
  obtain s1 r1 e1 where one: "syncTournament env (s, r) ft = ((s1, r1), e1)"
    by (cases "syncTournament env (s, r) ft") auto
  have a1: "allocated s1" by (rule syncTournament_allocated [OF Cons.prems(1) one])
  note step = syncTournament_store_forward [OF Cons.prems(1,2,3) one]
  show ?case
  proof (cases e1)
    case None
    with Cons.prems(4) one have rest: "syncLoop env fts (s1, r1) = ((s', r'), e)" by simp
    from step have b1: "storeBehind s1 r1" and d1: "distinct (map col_id (tournaments_tbl r1))"
      by simp_all
    note ih = Cons.IH [OF a1 b1 d1 rest]
    have "\<exists>row' \<in> set (tournaments_tbl r').
       col_id row' = col_id row \<and>
       unixNano (col_updated_at row) \<le> unixNano (col_updated_at row')"
      if "row \<in> set (tournaments_tbl r)" for row
    proof -
      from step that obtain row1 where "row1 \<in> set (tournaments_tbl r1)"
        "col_id row1 = col_id row" "unixNano (col_updated_at row) \<le> unixNano (col_updated_at row1)"
        by blast
      moreover from ih this(1) obtain row' where "row' \<in> set (tournaments_tbl r')"
        "col_id row' = col_id row1" "unixNano (col_updated_at row1) \<le> unixNano (col_updated_at row')"
        by blast
      ultimately show ?thesis by force
    qed
    with ih show ?thesis by blast
  next
    case (Some err)
    with Cons.prems(4) one step show ?thesis by simp
  qed
qed

lemma storeBehind_lastSync: "storeBehind (s\<lparr>lastSync := x\<rparr>) r = storeBehind s r"
  unfolding storeBehind_def stored_lastSync ..

lemma Sync_store_forward:
  assumes "allocated s" and "storeBehind s r" and "distinct (map col_id (tournaments_tbl r))"
    and "Sync env (s, r) = ((s', r'), e)"
  shows "storeBehind s' r' \<and> distinct (map col_id (tournaments_tbl r')) \<and>
         (\<forall>row \<in> set (tournaments_tbl r). \<exists>row' \<in> set (tournaments_tbl r').
             col_id row' = col_id row \<and>
             unixNano (col_updated_at row) \<le> unixNano (col_updated_at row'))"
  using assms(4)
proof (cases rule: Sync_cases)
  case (no_fetch err)
  with assms(2,3) show ?thesis by auto
next
  case (stopped m s0 err)
  with syncLoop_store_forward [OF assms(1,2,3) stopped(2)] show ?thesis by simp
next
  case (finished m s0)
  with syncLoop_store_forward [OF assms(1,2,3) finished(2)] show ?thesis
    by (simp add: storeBehind_lastSync)
qed

text \<open>
  Over any run of cycles the time of change in the stored row of a tournament never goes back.
\<close>

lemma scheduler_store_forward:
  "allocated (fst sr) \<Longrightarrow> storeBehind (fst sr) (snd sr) \<Longrightarrow>
   distinct (map col_id (tournaments_tbl (snd sr))) \<Longrightarrow>
   \<forall>row \<in> set (tournaments_tbl (snd sr)).
     \<exists>row' \<in> set (tournaments_tbl (snd (scheduler envs sr))).
       col_id row' = col_id row \<and>
       unixNano (col_updated_at row) \<le> unixNano (col_updated_at row')"
proof (induction envs arbitrary: sr)
  case Nil
  then show ?case by auto
next
  case (Cons env envs)
  obtain s r where sr: "sr = (s, r)" by (cases sr)
  obtain s' r' e where run: "Sync env (s, r) = ((s', r'), e)"
    by (cases "Sync env (s, r)") auto
  from Cons.prems sr have a: "allocated s" and b: "storeBehind s r"
    and d: "distinct (map col_id (tournaments_tbl r))" by simp_all
  note step = Sync_store_forward [OF a b d run]
  have a': "allocated (fst (fst (Sync env sr)))"
    using Sync_allocated [OF a run] by (simp add: sr run)
  have nxt: "fst (Sync env sr) = (s', r')" by (simp add: sr run)
  from step have ih: "\<forall>row \<in> set (tournaments_tbl r').
     \<exists>row' \<in> set (tournaments_tbl (snd (scheduler envs (s', r')))).
       col_id row' = col_id row \<and>
       unixNano (col_updated_at row) \<le> unixNano (col_updated_at row')"
    using Cons.IH [of "(s', r')"] a' nxt by simp
  show ?case
  proof
    fix row assume "row \<in> set (tournaments_tbl (snd sr))"
    with sr have "row \<in> set (tournaments_tbl r)" by simp
    with step obtain row1 where "row1 \<in> set (tournaments_tbl r')"
      "col_id row1 = col_id row" "unixNano (col_updated_at row) \<le> unixNano (col_updated_at row1)"
      by blast
    moreover from ih this(1) obtain row' where
      "row' \<in> set (tournaments_tbl (snd (scheduler envs (s', r'))))"
      "col_id row' = col_id row1" "unixNano (col_updated_at row1) \<le> unixNano (col_updated_at row')"
      by blast
    ultimately show "\<exists>row' \<in> set (tournaments_tbl (snd (scheduler (env # envs) sr))).
       col_id row' = col_id row \<and>
       unixNano (col_updated_at row) \<le> unixNano (col_updated_at row')"
      unfolding scheduler.simps nxt by force
  qed
qed

subsection \<open>Only newer records are applied\<close>

text \<open>
  Claim C2. A fetched tournament whose id is stored with a time of change that is not before
  the fetched one is skipped: the loop body leaves the whole state as it is. So a cycle in
  which every fetched record of an id is of that kind leaves the map entry, the stored record
  and the rows of the id in all three tables untouched, whether the cycle ends or breaks off.
  Over any run of cycles the time of change stored for an id never goes back, in the map
  and, from a state in which the store is not ahead of the map, in the stored row as well.
  And when a cycle has ended without error, a further cycle that fetches the same records
  changes nothing but the time of the last sync.
\<close>

theorem Sync_applies_only_newer:
  assumes "allocated s"
  shows "(\<not> changed s ft \<longrightarrow> syncTournament env (s, r) ft = ((s, r), None)) \<and>
         ((\<forall>m. fetchResult env = Inr m \<longrightarrow>
              (\<forall>ft \<in> set (rangeValues m (rangeOrder env)). tId ft = i \<longrightarrow> \<not> changed s ft)) \<longrightarrow>
            tournaments (fst (fst (Sync env (s, r)))) i = tournaments s i \<and>
            stored (fst (fst (Sync env (s, r)))) i = stored s i \<and>
            rowsOf (snd (fst (Sync env (s, r)))) i = rowsOf r i) \<and>
         (\<forall>t. stored s i = Some t \<longrightarrow>
            (\<exists>t'. stored (fst (scheduler envs (s, r))) i = Some t' \<and>
                  unixNano (UpdatedAt t) \<le> unixNano (UpdatedAt t'))) \<and>
         (storeBehind s r \<longrightarrow> distinct (map col_id (tournaments_tbl r)) \<longrightarrow>
            (\<forall>row \<in> set (tournaments_tbl r).
               \<exists>row' \<in> set (tournaments_tbl (snd (scheduler envs (s, r)))).
                 col_id row' = col_id row \<and>
                 unixNano (col_updated_at row) \<le> unixNano (col_updated_at row'))) \<and>
         (\<forall>s1 r1. Sync env (s, r) = ((s1, r1), None) \<longrightarrow>
            fetchResult env2 = fetchResult env \<longrightarrow> set (rangeOrder env2) \<subseteq> set (rangeOrder env) \<longrightarrow>
            Sync env2 (s1, r1) = ((s1\<lparr>lastSync := Some (syncDoneAt env2)\<rparr>, r1), None))"
proof (intro conjI allI impI)
  assume "\<not> changed s ft"
  then show "syncTournament env (s, r) ft = ((s, r), None)"
    by (rule syncTournament_unchanged)
next
  assume skip: "\<forall>m. fetchResult env = Inr m \<longrightarrow>
      (\<forall>ft \<in> set (rangeValues m (rangeOrder env)). tId ft = i \<longrightarrow> \<not> changed s ft)"
  obtain s' r' e where run: "Sync env (s, r) = ((s', r'), e)"
    by (cases "Sync env (s, r)") auto
  from Sync_untouched [OF assms run skip]
  show "tournaments (fst (fst (Sync env (s, r)))) i = tournaments s i"
    and "stored (fst (fst (Sync env (s, r)))) i = stored s i"
    and "rowsOf (snd (fst (Sync env (s, r)))) i = rowsOf r i"
    by (simp_all add: run)
next
  fix t assume "stored s i = Some t"
  with scheduler_forward [of "(s, r)" i t envs] assms
  show "\<exists>t'. stored (fst (scheduler envs (s, r))) i = Some t' \<and>
             unixNano (UpdatedAt t) \<le> unixNano (UpdatedAt t')" by simp
next
  assume "storeBehind s r" "distinct (map col_id (tournaments_tbl r))"
  with scheduler_store_forward [of "(s, r)" envs] assms
  show "\<forall>row \<in> set (tournaments_tbl r).
          \<exists>row' \<in> set (tournaments_tbl (snd (scheduler envs (s, r)))).
            col_id row' = col_id row \<and>
            unixNano (col_updated_at row) \<le> unixNano (col_updated_at row')" by simp
next
  fix s1 r1
  assume "Sync env (s, r) = ((s1, r1), None)" "fetchResult env2 = fetchResult env"
    "set (rangeOrder env2) \<subseteq> set (rangeOrder env)"
  with assms show "Sync env2 (s1, r1) = ((s1\<lparr>lastSync := Some (syncDoneAt env2)\<rparr>, r1), None)"
    by (rule Sync_again)
qed

text \<open>
  The example: after the first cycle tournament 1 is stored with the time of change 100. A
  record fetched with the same time is skipped, the second cycle of the example moves the
  stored time to 200, and the first cycle run again changes nothing.
\<close>

lemma allocated_emptyService: "allocated emptyService"
  unfolding allocated_def emptyService_def by simp

lemma ex_allocated: "allocated (fst exAfterFirst)"
  unfolding exAfterFirst_def
  by (rule scheduler_allocated) (simp add: allocated_emptyService)

lemma ex_first_ok: "snd (Sync (exSyncEnv 100 ''Early'' 12) (emptyService, emptyRepo)) = None"
  by code_simp

lemma ex_first: "Sync (exSyncEnv 100 ''Early'' 12) (emptyService, emptyRepo)
                   = ((fst exAfterFirst, snd exAfterFirst), None)"
  using ex_first_ok unfolding exAfterFirst_def
  by (cases "Sync (exSyncEnv 100 ''Early'' 12) (emptyService, emptyRepo)") auto

lemma ex_second: "scheduler [exSyncEnv 200 ''Late'' 13] (fst exAfterFirst, snd exAfterFirst) = exTwoCycles"
  unfolding exAfterFirst_def exTwoCycles_def by simp

lemma ex_not_changed: "\<not> changed (fst exAfterFirst) (exFetched 100)"
  by code_simp

lemma ex_stored_times:
  "map_option (\<lambda>t. unixNano (UpdatedAt t)) (stored (fst exAfterFirst) 1) = Some 100 \<and>
   map_option (\<lambda>t. unixNano (UpdatedAt t)) (stored (fst exTwoCycles) 1) = Some 200"
  by code_simp

lemma ex_store_behind:
  "storeBehind (fst exAfterFirst) (snd exAfterFirst) \<and>
   distinct (map col_id (tournaments_tbl (snd exAfterFirst)))"
proof -
  have "storeBehind emptyService emptyRepo" "distinct (map col_id (tournaments_tbl emptyRepo))"
    unfolding storeBehind_def emptyRepo_def by simp_all
  from Sync_store_forward [OF allocated_emptyService this ex_first] show ?thesis by simp
qed

lemma ex_store_rows:
  "map (\<lambda>row. (col_id row, unixNano (col_updated_at row))) (tournaments_tbl (snd exAfterFirst))
     = [(1, 100)] \<and>
   map (\<lambda>row. (col_id row, unixNano (col_updated_at row))) (tournaments_tbl (snd exTwoCycles))
     = [(1, 200)]"
  by code_simp

theorem Sync_applies_only_newer_witness:
  "allocated (fst exAfterFirst) \<and> allocated emptyService \<and>
   storeBehind (fst exAfterFirst) (snd exAfterFirst) \<and>
   distinct (map col_id (tournaments_tbl (snd exAfterFirst))) \<and>
   map (\<lambda>row. (col_id row, unixNano (col_updated_at row))) (tournaments_tbl (snd exAfterFirst))
     = [(1, 100)] \<and>
   map (\<lambda>row. (col_id row, unixNano (col_updated_at row))) (tournaments_tbl (snd exTwoCycles))
     = [(1, 200)] \<and>
   (\<exists>row \<in> set (tournaments_tbl (snd exAfterFirst)).
      \<exists>row' \<in> set (tournaments_tbl (snd exTwoCycles)).
        col_id row' = col_id row \<and>
        unixNano (col_updated_at row) \<le> unixNano (col_updated_at row')) \<and>
   \<not> changed (fst exAfterFirst) (exFetched 100) \<and>
   syncTournament (exSyncEnv 100 ''Early'' 13) (fst exAfterFirst, snd exAfterFirst) (exFetched 100)
     = ((fst exAfterFirst, snd exAfterFirst), None) \<and>
   map_option (\<lambda>t. unixNano (UpdatedAt t)) (stored (fst exAfterFirst) 1) = Some 100 \<and>
   map_option (\<lambda>t. unixNano (UpdatedAt t)) (stored (fst exTwoCycles) 1) = Some 200 \<and>
   (\<exists>t t'. stored (fst exAfterFirst) 1 = Some t \<and> stored (fst exTwoCycles) 1 = Some t' \<and>
      unixNano (UpdatedAt t) \<le> unixNano (UpdatedAt t')) \<and>
   Sync (exSyncEnv 100 ''Early'' 12) (emptyService, emptyRepo)
     = ((fst exAfterFirst, snd exAfterFirst), None) \<and>
   Sync (exSyncEnv 100 ''Early'' 13) (fst exAfterFirst, snd exAfterFirst)
     = ((fst exAfterFirst\<lparr>lastSync := Some (syncDoneAt (exSyncEnv 100 ''Early'' 13))\<rparr>,
         snd exAfterFirst), None)"
proof -
  note a = Sync_applies_only_newer [OF ex_allocated,
      of "exFetched 100" "exSyncEnv 100 ''Early'' 13" "snd exAfterFirst" 1
         "[exSyncEnv 200 ''Late'' 13]" "exSyncEnv 100 ''Early'' 13"]
  note b = Sync_applies_only_newer [OF allocated_emptyService,
      of "exFetched 100" "exSyncEnv 100 ''Early'' 12" emptyRepo 1 "[]" "exSyncEnv 100 ''Early'' 13"]
  from a ex_not_changed have one:
    "syncTournament (exSyncEnv 100 ''Early'' 13) (fst exAfterFirst, snd exAfterFirst) (exFetched 100)
       = ((fst exAfterFirst, snd exAfterFirst), None)" by blast
  from ex_stored_times obtain t where t: "stored (fst exAfterFirst) 1 = Some t" by auto
  with a have "\<exists>t'. stored (fst (scheduler [exSyncEnv 200 ''Late'' 13]
        (fst exAfterFirst, snd exAfterFirst))) 1 = Some t' \<and>
      unixNano (UpdatedAt t) \<le> unixNano (UpdatedAt t')" by blast
  with t have three: "\<exists>t t'. stored (fst exAfterFirst) 1 = Some t \<and> stored (fst exTwoCycles) 1 = Some t' \<and>
      unixNano (UpdatedAt t) \<le> unixNano (UpdatedAt t')"
    unfolding ex_second by blast
  have same: "fetchResult (exSyncEnv 100 ''Early'' 13) = fetchResult (exSyncEnv 100 ''Early'' 12)"
    "set (rangeOrder (exSyncEnv 100 ''Early'' 13)) \<subseteq> set (rangeOrder (exSyncEnv 100 ''Early'' 12))"
    unfolding exSyncEnv_def by simp_all
  from b ex_first same have four:
    "Sync (exSyncEnv 100 ''Early'' 13) (fst exAfterFirst, snd exAfterFirst)
       = ((fst exAfterFirst\<lparr>lastSync := Some (syncDoneAt (exSyncEnv 100 ''Early'' 13))\<rparr>,
           snd exAfterFirst), None)" by blast
  from a ex_store_behind have forward:
    "\<forall>row \<in> set (tournaments_tbl (snd exAfterFirst)).
      \<exists>row' \<in> set (tournaments_tbl (snd exTwoCycles)).
        col_id row' = col_id row \<and>
        unixNano (col_updated_at row) \<le> unixNano (col_updated_at row')"
    unfolding ex_second by blast
  from ex_store_rows obtain row where "row \<in> set (tournaments_tbl (snd exAfterFirst))"
    by (cases "tournaments_tbl (snd exAfterFirst)") auto
  with forward have five:
    "\<exists>row \<in> set (tournaments_tbl (snd exAfterFirst)).
      \<exists>row' \<in> set (tournaments_tbl (snd exTwoCycles)).
        col_id row' = col_id row \<and>
        unixNano (col_updated_at row) \<le> unixNano (col_updated_at row')"
    by blast
  from ex_allocated allocated_emptyService ex_not_changed one ex_stored_times three ex_first four
    ex_store_behind ex_store_rows five
  show ?thesis by blast
qed

end
